theory Spec2Isabelle
  imports Main "HOL-Library.Word"
begin

section \<open>Machine model\<close>

text \<open>
  Pointers are addresses; \<open>NULL\<close> is address 0.  A byte buffer together with its length
  (\<open>key, keylen\<close> and \<open>value, size\<close>) is a byte list.  The counters of type \<open>size_t\<close>
  (\<open>length\<close>, \<open>psl\<close>, the probe distance, the byte budget) are natural numbers: the table
  capacity is capped at \<open>HASHMAP_MAX = UINT_MAX\<close> by \<open>hashmap_resize\<close>, and every counter
  is bounded by the capacity or by the bytes actually allocated, far below \<open>2 ^ 64\<close>.
  Hashes are 64-bit words and wrap.

  A run of the C code can end in three ways that are not a normal return: a division by
  zero, a read or write through \<open>NULL\<close>, and a read or write through a pointer to memory
  that is not (or no longer) allocated.  These are the values of \<open>fault\<close>.
\<close>

type_synonym byte = "8 word"
type_synonym addr = nat

abbreviation (input) NULL :: addr where "NULL \<equiv> 0"

datatype fault = DivisionByZero | NullDereference | DanglingPointer

section \<open>hashmap.h, hashmap.c\<close>

record bin =
  key :: "byte list option"
  val :: addr
  hash :: "64 word"
  psl :: nat
  keylen :: nat

text \<open>
  \<open>struct Hashmap\<close>: the fields \<open>size\<close> and \<open>bins\<close> are the array \<open>bins\<close> of length
  \<open>size\<close>, so \<open>map->size\<close> is \<open>length (bins m)\<close>.
\<close>

record hashmap =
  minsize :: nat
  length_h :: nat
  bins :: "bin list"

definition HASHMAP_MAX :: nat where
  "HASHMAP_MAX = 4294967295"

definition HASHMAP_MAX_GROWTH_STEP :: nat where
  "HASHMAP_MAX_GROWTH_STEP = 1024 * 1024"

definition approx_85_percent :: "nat \<Rightarrow> nat" where
  "approx_85_percent x = drop_bit 10 (x * 870)"

definition approx_40_percent :: "nat \<Rightarrow> nat" where
  "approx_40_percent x = drop_bit 10 (x * 409)"

text \<open>\<open>get_hash\<close>: djb2 over the key bytes; \<open>char\<close> is signed, so a byte is sign-extended.\<close>

fun hash_bytes :: "64 word \<Rightarrow> byte list \<Rightarrow> 64 word" where
  "hash_bytes h [] = h"
| "hash_bytes h (c # cs) = hash_bytes ((push_bit 5 h + h) + scast c) cs"

definition get_hash :: "byte list \<Rightarrow> 64 word" where
  "get_hash k = hash_bytes 5381 k"

text \<open>
  The test \<open>bin->hash == hash && bin->keylen == keylen && memcmp(bin->key, key, keylen) == 0\<close>.
  \<open>memcmp\<close> is reached only when hash and length agree; on a \<open>NULL\<close> key it reads nothing
  when \<open>keylen\<close> is 0 and is a read through \<open>NULL\<close> otherwise.
\<close>

definition bin_faults :: "bin \<Rightarrow> 64 word \<Rightarrow> byte list \<Rightarrow> bool" where
  "bin_faults b h k \<longleftrightarrow> hash b = h \<and> keylen b = length k \<and> key b = None \<and> k \<noteq> []"

definition bin_matches :: "bin \<Rightarrow> 64 word \<Rightarrow> byte list \<Rightarrow> bool" where
  "bin_matches b h k \<longleftrightarrow> hash b = h \<and> keylen b = length k \<and>
     (case key b of None \<Rightarrow> k = [] | Some kb \<Rightarrow> take (length k) kb = k)"

text \<open>The probe loop of \<open>hashmap_find\<close>; \<open>n\<close> is the probe distance, \<open>i\<close> the bin index.\<close>

function find_loop :: "bin list \<Rightarrow> 64 word \<Rightarrow> byte list \<Rightarrow> nat \<Rightarrow> nat \<Rightarrow> fault + addr" where
  "find_loop bs h k n i =
     (if length bs \<le> i then Inl DanglingPointer
      else if bin_faults (bs ! i) h k then Inl NullDereference
      else if bin_matches (bs ! i) h k then Inr (val (bs ! i))
      else if key (bs ! i) = None \<or> n > psl (bs ! i) then Inr NULL
      else find_loop bs h k (n + 1) ((i + 1) mod length bs))"
  by pat_completeness auto
termination
proof (relation "measure (\<lambda>(bs, h, k, n, i). Suc (Max (psl ` set bs)) - n)")
  show "wf (measure (\<lambda>(bs, h, k, n, i). Suc (Max (psl ` set bs)) - n))"
    by simp
next
  fix bs :: "bin list" and h :: "64 word" and k :: "byte list" and n i :: nat
  assume "\<not> length bs \<le> i" and "\<not> (key (bs ! i) = None \<or> psl (bs ! i) < n)"
  then have "bs ! i \<in> set bs" and "n \<le> psl (bs ! i)"
    by simp_all
  then have "n \<le> Max (psl ` set bs)"
    by (meson List.finite_set Max_ge finite_imageI imageI le_trans)
  then show "((bs, h, k, n + 1, (i + 1) mod length bs), (bs, h, k, n, i))
      \<in> measure (\<lambda>(bs, h, k, n, i). Suc (Max (psl ` set bs)) - n)"
    by simp
qed

declare find_loop.simps [simp del]

definition hashmap_find :: "hashmap \<Rightarrow> byte list \<Rightarrow> fault + addr" where
  "hashmap_find m k =
     (if bins m = [] then Inl DivisionByZero
      else find_loop (bins m) (get_hash k) k 0 (unat (get_hash k) mod length (bins m)))"

text \<open>The search loop of \<open>hashmap_delete\<close>: the index of the bin holding the key, if any.\<close>

function delete_probe :: "bin list \<Rightarrow> 64 word \<Rightarrow> byte list \<Rightarrow> nat \<Rightarrow> nat \<Rightarrow> fault + nat option" where
  "delete_probe bs h k n i =
     (if length bs \<le> i then Inl DanglingPointer
      else if key (bs ! i) = None \<or> n > psl (bs ! i) then Inr None
      else if bin_matches (bs ! i) h k then Inr (Some i)
      else delete_probe bs h k (n + 1) ((i + 1) mod length bs))"
  by pat_completeness auto
termination
proof (relation "measure (\<lambda>(bs, h, k, n, i). Suc (Max (psl ` set bs)) - n)")
  show "wf (measure (\<lambda>(bs, h, k, n, i). Suc (Max (psl ` set bs)) - n))"
    by simp
next
  fix bs :: "bin list" and h :: "64 word" and k :: "byte list" and n i :: nat
  assume "\<not> length bs \<le> i" and "\<not> (key (bs ! i) = None \<or> psl (bs ! i) < n)"
  then have "bs ! i \<in> set bs" and "n \<le> psl (bs ! i)"
    by simp_all
  then have "n \<le> Max (psl ` set bs)"
    by (meson List.finite_set Max_ge finite_imageI imageI le_trans)
  then show "((bs, h, k, n + 1, (i + 1) mod length bs), (bs, h, k, n, i))
      \<in> measure (\<lambda>(bs, h, k, n, i). Suc (Max (psl ` set bs)) - n)"
    by simp
qed

declare delete_probe.simps [simp del]

text \<open>
  The backward shift of \<open>hashmap_delete\<close>.  Each round clears \<open>bin\<close> (index \<open>i\<close>), looks at
  the next bin \<open>nbin\<close>, and unless that one is empty or at its own position, decrements its
  \<open>psl\<close>, copies it into \<open>bin\<close> and goes on from \<open>nbin\<close>.
\<close>

definition clear_bin :: "bin \<Rightarrow> bin" where
  "clear_bin b = b\<lparr>key := None, keylen := 0\<rparr>"

definition occ_psl :: "bin \<Rightarrow> nat" where
  "occ_psl b = (if key b = None then 0 else psl b)"

function shift_back :: "bin list \<Rightarrow> nat \<Rightarrow> fault + bin list" where
  "shift_back bs i =
     (if length bs \<le> i then Inl DanglingPointer
      else
        let bs1 = bs[i := clear_bin (bs ! i)];
            j = (i + 1) mod length bs;
            nbin = bs1 ! j
        in if key nbin = None \<or> psl nbin = 0 then Inr bs1
           else
             let nbin' = nbin\<lparr>psl := psl nbin - 1\<rparr>
             in shift_back (bs1[j := nbin', i := nbin']) j)"
  by pat_completeness auto
termination
proof (relation "measure (\<lambda>(bs, i). sum_list (map occ_psl (bs[i := clear_bin (bs ! i)])))", goal_cases)
  case 1
  show ?case by simp
next
  case (2 bs i bs1 j nb nb')
  have upd: "sum_list (map occ_psl (xs[m := x])) + occ_psl (xs ! m) = sum_list (map occ_psl xs) + occ_psl x"
    if "m < length xs" for xs :: "bin list" and m x
    using that
  proof (induction xs arbitrary: m)
    case Nil
    then show ?case by simp
  next
    case (Cons a xs)
    then show ?case by (cases m) (auto simp: algebra_simps)
  qed
  from 2 have i: "i < length bs" and occ: "key nb \<noteq> None" and pos: "psl nb \<noteq> 0"
    by simp_all
  have "0 < length bs" using i by (cases bs) simp_all
  then have j: "j < length bs" unfolding \<open>j = (i + 1) mod length bs\<close> by (rule mod_less_divisor)
  have len1: "length bs1 = length bs" using 2 by simp
  have ij: "i \<noteq> j"
  proof
    assume "i = j"
    then have "nb = clear_bin (bs ! i)" using i 2 by simp
    with occ show False by (simp add: clear_bin_def)
  qed
  have e1: "bs1[j := nb', i := nb', j := clear_bin ((bs1[j := nb', i := nb']) ! j)]
      = bs1[i := nb', j := clear_bin nb']"
    using ij i j len1 by (simp add: list_update_swap)
  have s0: "occ_psl (bs1 ! i) = 0" using i 2 by (simp add: occ_psl_def clear_bin_def)
  have s1: "sum_list (map occ_psl (bs1[i := nb'])) + occ_psl (bs1 ! i)
      = sum_list (map occ_psl bs1) + occ_psl nb'"
    using upd[of i bs1 nb'] i len1 by simp
  have s2: "sum_list (map occ_psl (bs1[i := nb', j := clear_bin nb'])) + occ_psl ((bs1[i := nb']) ! j)
      = sum_list (map occ_psl (bs1[i := nb'])) + occ_psl (clear_bin nb')"
    using upd[of j "bs1[i := nb']" "clear_bin nb'"] j len1 by simp
  have s3: "(bs1[i := nb']) ! j = nb" using ij j len1 2 by simp
  have s4: "occ_psl nb = psl nb" "occ_psl nb' = psl nb - 1" "occ_psl (clear_bin nb') = 0"
    using occ 2 by (auto simp: occ_psl_def clear_bin_def)
  have "sum_list (map occ_psl (bs1[i := nb', j := clear_bin nb'])) < sum_list (map occ_psl bs1)"
    using s0 s1 s2 s3 s4 pos by simp
  then show ?case
    using e1 2 by simp
qed

declare shift_back.simps [simp del]

text \<open>
  The displacement loop of \<open>hashmap_insert_no_resize\<close>.  It returns the new bins and
  whether an empty bin was filled (then \<open>length\<close> is incremented); on a duplicate the value
  is overwritten in place.  On a table with no empty bin the C loop need not end.
\<close>

partial_function (option) insert_loop ::
  "bin list \<Rightarrow> 64 word \<Rightarrow> byte list \<Rightarrow> addr \<Rightarrow> bin \<Rightarrow> nat \<Rightarrow> (fault + bin list \<times> bool) option" where
  "insert_loop bs h k v entry i =
     (if length bs \<le> i then Some (Inl DanglingPointer)
      else if key (bs ! i) \<noteq> None then
        (if bin_matches (bs ! i) h k then Some (Inr (bs[i := (bs ! i)\<lparr>val := v\<rparr>], False))
         else if psl entry > psl (bs ! i)
           then insert_loop (bs[i := entry]) h k v ((bs ! i)\<lparr>psl := psl (bs ! i) + 1\<rparr>)
                  ((i + 1) mod length bs)
           else insert_loop bs h k v (entry\<lparr>psl := psl entry + 1\<rparr>) ((i + 1) mod length bs))
      else Some (Inr (bs[i := entry], True)))"

declare insert_loop.simps [code]

definition hashmap_insert_no_resize ::
  "hashmap \<Rightarrow> byte list \<Rightarrow> addr \<Rightarrow> (fault + hashmap \<times> addr) option" where
  "hashmap_insert_no_resize m k v =
     (if bins m = [] then Some (Inl DivisionByZero)
      else
        case insert_loop (bins m) (get_hash k) k v
               \<lparr>key = Some k, val = v, hash = get_hash k, psl = 0, keylen = length k\<rparr>
               (unat (get_hash k) mod length (bins m)) of
          None \<Rightarrow> None
        | Some (Inl e) \<Rightarrow> Some (Inl e)
        | Some (Inr (bs, placed)) \<Rightarrow>
            Some (Inr (m\<lparr>bins := bs, length_h := (if placed then length_h m + 1 else length_h m)\<rparr>, v)))"

text \<open>
  \<open>hashmap_resize\<close>.  \<open>calloc_ok n\<close> says whether \<open>calloc\<close> of \<open>n\<close> bins succeeds; it is a
  parameter of every operation that can resize.  A bin of the zeroed array is \<open>empty_bin\<close>.
\<close>

definition empty_bin :: bin where
  "empty_bin = \<lparr>key = None, val = NULL, hash = 0, psl = 0, keylen = 0\<rparr>"

fun reinsert :: "bin list \<Rightarrow> hashmap \<Rightarrow> (fault + hashmap) option" where
  "reinsert [] m = Some (Inr m)"
| "reinsert (b # old) m =
     (case key b of
        None \<Rightarrow> reinsert old m
      | Some kb \<Rightarrow>
          (case hashmap_insert_no_resize m (take (keylen b) kb) (val b) of
             None \<Rightarrow> None
           | Some (Inl e) \<Rightarrow> Some (Inl e)
           | Some (Inr (m', r)) \<Rightarrow> reinsert old m'))"

definition hashmap_resize ::
  "(nat \<Rightarrow> bool) \<Rightarrow> hashmap \<Rightarrow> nat \<Rightarrow> (fault + hashmap \<times> int) option" where
  "hashmap_resize calloc_ok m new_size =
     (if new_size > HASHMAP_MAX then Some (Inr (m, - 1))
      else if \<not> calloc_ok new_size then Some (Inr (m, - 1))
      else
        case reinsert (bins m) (m\<lparr>bins := replicate new_size empty_bin, length_h := 0\<rparr>) of
          None \<Rightarrow> None
        | Some (Inl e) \<Rightarrow> Some (Inl e)
        | Some (Inr m') \<Rightarrow> Some (Inr (m', 0)))"

definition hashmap_insert ::
  "(nat \<Rightarrow> bool) \<Rightarrow> hashmap \<Rightarrow> byte list \<Rightarrow> addr \<Rightarrow> (fault + hashmap \<times> addr) option" where
  "hashmap_insert calloc_ok m k v =
     (let threshold = approx_85_percent (length (bins m)) in
      if length_h m > threshold then
        (let grow_limit = length (bins m) + HASHMAP_MAX_GROWTH_STEP;
             new_size = min (push_bit 1 (length (bins m))) grow_limit
         in case hashmap_resize calloc_ok m new_size of
              None \<Rightarrow> None
            | Some (Inl e) \<Rightarrow> Some (Inl e)
            | Some (Inr (m', rc)) \<Rightarrow>
                if rc \<noteq> 0 then Some (Inr (m', NULL)) else hashmap_insert_no_resize m' k v)
      else hashmap_insert_no_resize m k v)"

definition hashmap_delete ::
  "(nat \<Rightarrow> bool) \<Rightarrow> hashmap \<Rightarrow> byte list \<Rightarrow> (fault + hashmap \<times> addr) option" where
  "hashmap_delete calloc_ok m k =
     (let threshold = approx_40_percent (length (bins m)) in
      if bins m = [] then Some (Inl DivisionByZero)
      else
        case delete_probe (bins m) (get_hash k) k 0 (unat (get_hash k) mod length (bins m)) of
          Inl e \<Rightarrow> Some (Inl e)
        | Inr None \<Rightarrow> Some (Inr (m, NULL))
        | Inr (Some i) \<Rightarrow>
            (case shift_back (bins m) i of
               Inl e \<Rightarrow> Some (Inl e)
             | Inr bs \<Rightarrow>
                 let v = val (bins m ! i);
                     m1 = m\<lparr>bins := bs, length_h := length_h m - 1\<rparr>
                 in if length_h m1 > minsize m1 \<and> length_h m1 < threshold then
                      (case hashmap_resize calloc_ok m1
                              (max (drop_bit 1 (length (bins m1))) (minsize m1)) of
                         None \<Rightarrow> None
                       | Some (Inl e) \<Rightarrow> Some (Inl e)
                       | Some (Inr (m2, rc)) \<Rightarrow> Some (Inr (m2, v)))
                    else Some (Inr (m1, v))))"

text \<open>
  \<open>hashmap_init\<close>: the zeroed \<open>hashmap_t\<close> has no bins; the result is \<open>None\<close> for the C
  \<open>NULL\<close> when the first resize fails.
\<close>

definition hashmap_init :: "(nat \<Rightarrow> bool) \<Rightarrow> nat \<Rightarrow> (fault + hashmap option) option" where
  "hashmap_init calloc_ok n =
     (let m = \<lparr>minsize = max n 1, length_h = 0, bins = []\<rparr> in
      case hashmap_resize calloc_ok m (minsize m) of
        None \<Rightarrow> None
      | Some (Inl e) \<Rightarrow> Some (Inl e)
      | Some (Inr (m', rc)) \<Rightarrow> if rc \<noteq> 0 then Some (Inr None) else Some (Inr (Some m')))"

section \<open>Heap objects\<close>

text \<open>
  Nodes and blocks live in stores from addresses to objects.  \<open>malloc\<close> hands out the
  address \<open>brk\<close> and advances it.  A heap whose \<open>brk\<close> is \<open>NULL\<close> is exhausted: \<open>malloc\<close>
  returns \<open>NULL\<close>, and since \<open>get_block\<close> and \<open>list_insert\<close> do not check the result, their
  first write through it is a \<open>NullDereference\<close> fault.  \<open>free\<close> removes the object, so that
  a later access through the same pointer is a \<open>DanglingPointer\<close> fault.
\<close>

definition bind_f :: "fault + 'a \<Rightarrow> ('a \<Rightarrow> fault + 'b) \<Rightarrow> fault + 'b" where
  "bind_f r f = (case r of Inl e \<Rightarrow> Inl e | Inr x \<Rightarrow> f x)"

definition bind_p :: "(fault + 'a) option \<Rightarrow> ('a \<Rightarrow> (fault + 'b) option) \<Rightarrow> (fault + 'b) option" where
  "bind_p r f = (case r of None \<Rightarrow> None | Some (Inl e) \<Rightarrow> Some (Inl e) | Some (Inr x) \<Rightarrow> f x)"

definition deref :: "(addr \<Rightarrow> 'a option) \<Rightarrow> addr \<Rightarrow> fault + 'a" where
  "deref st p =
     (if p = NULL then Inl NullDereference
      else case st p of None \<Rightarrow> Inl DanglingPointer | Some x \<Rightarrow> Inr x)"

definition free :: "(addr \<Rightarrow> 'a option) \<Rightarrow> addr \<Rightarrow> fault + (addr \<Rightarrow> 'a option)" where
  "free st p =
     (if p = NULL then Inr st
      else case st p of None \<Rightarrow> Inl DanglingPointer | Some x \<Rightarrow> Inr (st(p := None)))"

section \<open>list.h, list.c\<close>

record node_t =
  next_n :: addr
  prev_n :: addr
  value_n :: addr

record list_t =
  head :: addr
  length_l :: nat

definition set_next :: "(addr \<Rightarrow> node_t option) \<Rightarrow> addr \<Rightarrow> addr \<Rightarrow> fault + (addr \<Rightarrow> node_t option)" where
  "set_next ns p q = bind_f (deref ns p) (\<lambda>nd. Inr (ns(p \<mapsto> nd\<lparr>next_n := q\<rparr>)))"

definition set_prev :: "(addr \<Rightarrow> node_t option) \<Rightarrow> addr \<Rightarrow> addr \<Rightarrow> fault + (addr \<Rightarrow> node_t option)" where
  "set_prev ns p q = bind_f (deref ns p) (\<lambda>nd. Inr (ns(p \<mapsto> nd\<lparr>prev_n := q\<rparr>)))"

definition list_insert_head ::
  "list_t \<Rightarrow> (addr \<Rightarrow> node_t option) \<Rightarrow> addr \<Rightarrow> fault + list_t \<times> (addr \<Rightarrow> node_t option)" where
  "list_insert_head l ns node =
     (if length_l l = 0 then
        bind_f (set_prev ns node node) (\<lambda>ns1.
        bind_f (set_next ns1 node node) (\<lambda>ns2.
        Inr (l\<lparr>head := node, length_l := length_l l + 1\<rparr>, ns2)))
      else
        let head_orig = head l in
        bind_f (deref ns head_orig) (\<lambda>ho.
        bind_f (set_prev ns node (prev_n ho)) (\<lambda>ns1.
        bind_f (deref ns1 head_orig) (\<lambda>ho1.
        bind_f (set_next ns1 (prev_n ho1) node) (\<lambda>ns2.
        bind_f (set_next ns2 node head_orig) (\<lambda>ns3.
        bind_f (set_prev ns3 head_orig node) (\<lambda>ns4.
        Inr (l\<lparr>head := node, length_l := length_l l + 1\<rparr>, ns4))))))))"

text \<open>
  \<open>list_insert\<close> allocates the node at \<open>brk\<close> and writes \<open>node->value\<close> without checking
  the result of \<open>malloc\<close>; it returns the list, the store and the new \<open>brk\<close>.
\<close>

definition list_insert ::
  "list_t \<Rightarrow> (addr \<Rightarrow> node_t option) \<Rightarrow> addr \<Rightarrow> addr
     \<Rightarrow> fault + list_t \<times> (addr \<Rightarrow> node_t option) \<times> addr" where
  "list_insert l ns brk0 v =
     (let node = brk0 in
      if node = NULL then Inl NullDereference
      else
        let ns0 = ns(node \<mapsto> \<lparr>next_n = NULL, prev_n = NULL, value_n = v\<rparr>)
        in bind_f (list_insert_head l ns0 node) (\<lambda>(l', ns'). Inr (l', ns', brk0 + 1)))"

definition list_delete ::
  "list_t \<Rightarrow> (addr \<Rightarrow> node_t option) \<Rightarrow> addr \<Rightarrow> fault + list_t \<times> (addr \<Rightarrow> node_t option)" where
  "list_delete l ns node =
     (if length_l l = 1 then Inr (l\<lparr>head := NULL, length_l := length_l l - 1\<rparr>, ns)
      else
        bind_f (deref ns node) (\<lambda>nd.
        bind_f (set_next ns (prev_n nd) (next_n nd)) (\<lambda>ns1.
        bind_f (deref ns1 node) (\<lambda>nd1.
        bind_f (set_prev ns1 (next_n nd1) (prev_n nd1)) (\<lambda>ns2.
        Inr (l\<lparr>length_l := length_l l - 1\<rparr>, ns2))))))"

definition list_move_to_head ::
  "list_t \<Rightarrow> (addr \<Rightarrow> node_t option) \<Rightarrow> addr \<Rightarrow> fault + list_t \<times> (addr \<Rightarrow> node_t option)" where
  "list_move_to_head l ns node =
     (if node = head l then Inr (l, ns)
      else
        bind_f (list_delete l ns node) (\<lambda>(l1, ns1). list_insert_head l1 ns1 node))"

text \<open>
  The loop of \<open>list_find\<close>, entered with \<open>looped = false\<close> at node \<open>n\<close>.  On a chain of
  \<open>next\<close> pointers that never comes back to the head the C loop does not end.
\<close>

partial_function (option) list_find_loop ::
  "(addr \<Rightarrow> node_t option) \<Rightarrow> addr \<Rightarrow> addr \<Rightarrow> addr \<Rightarrow> (fault + addr) option" where
  "list_find_loop ns hd0 v n =
     (if n = NULL then Some (Inr NULL)
      else
        case deref ns n of
          Inl e \<Rightarrow> Some (Inl e)
        | Inr nd \<Rightarrow>
            if value_n nd = v then Some (Inr n)
            else if next_n nd = hd0 then Some (Inr NULL)
            else list_find_loop ns hd0 v (next_n nd))"

declare list_find_loop.simps [code]

definition list_find :: "list_t \<Rightarrow> (addr \<Rightarrow> node_t option) \<Rightarrow> addr \<Rightarrow> (fault + addr) option" where
  "list_find l ns v = list_find_loop ns (head l) v (head l)"

definition list_init :: list_t where
  "list_init = \<lparr>head = NULL, length_l = 0\<rparr>"

section \<open>cache.h, cache.c\<close>

record block_t =
  key_b :: "byte list"
  value_b :: "byte list"
  size_b :: nat
  keylen_b :: nat

text \<open>
  \<open>struct Cache\<close>, together with the heap it owns: the node store, the block store and
  the allocation pointer.  \<open>map_c\<close> is \<open>None\<close> when \<open>hashmap_init\<close> returned \<open>NULL\<close>.
\<close>

record cache_t =
  map_c :: "hashmap option"
  lru_list :: list_t
  size_c :: nat
  max_size :: nat
  nodes :: "addr \<Rightarrow> node_t option"
  blocks :: "addr \<Rightarrow> block_t option"
  brk :: addr

definition the_map :: "cache_t \<Rightarrow> fault + hashmap" where
  "the_map c = (case map_c c of None \<Rightarrow> Inl NullDereference | Some m \<Rightarrow> Inr m)"

definition cache_init :: "(nat \<Rightarrow> bool) \<Rightarrow> nat \<Rightarrow> (fault + cache_t) option" where
  "cache_init calloc_ok n =
     bind_p (hashmap_init calloc_ok 1) (\<lambda>m.
       Some (Inr \<lparr>map_c = m, lru_list = list_init, size_c = 0, max_size = n,
                  nodes = Map.empty, blocks = Map.empty, brk = 1\<rparr>))"

definition cache_delete :: "(nat \<Rightarrow> bool) \<Rightarrow> cache_t \<Rightarrow> addr \<Rightarrow> (fault + cache_t \<times> int) option" where
  "cache_delete calloc_ok c block =
     bind_p (Some (the_map c)) (\<lambda>m.
     bind_p (Some (deref (blocks c) block)) (\<lambda>blk.
     bind_p (hashmap_delete calloc_ok m (take (keylen_b blk) (key_b blk))) (\<lambda>(m', v).
       if v = NULL then Some (Inr (c\<lparr>map_c := Some m'\<rparr>, - 1))
       else
         let c1 = c\<lparr>map_c := Some m', size_c := size_c c - size_b blk\<rparr> in
         bind_p (list_find (lru_list c1) (nodes c1) block) (\<lambda>node.
         bind_p (Some (list_delete (lru_list c1) (nodes c1) node)) (\<lambda>(l', ns').
         bind_p (Some (free ns' node)) (\<lambda>ns''.
         bind_p (Some (free (blocks c1) block)) (\<lambda>bl'.
           Some (Inr (c1\<lparr>lru_list := l', nodes := ns'', blocks := bl'\<rparr>, 0)))))))))"

text \<open>
  \<open>get_block\<close> copies the key and the value into a new block at \<open>brk\<close>; it writes
  \<open>block->key\<close> without checking the result of \<open>malloc\<close>.
\<close>

definition get_block :: "cache_t \<Rightarrow> byte list \<Rightarrow> byte list \<Rightarrow> fault + cache_t \<times> addr" where
  "get_block c k v =
     (let block = brk c in
      if block = NULL then Inl NullDereference
      else
        Inr (c\<lparr>blocks := (blocks c)(block \<mapsto>
                  \<lparr>key_b = k, value_b = v, size_b = length v, keylen_b = length k\<rparr>),
               brk := brk c + 1\<rparr>, block))"

text \<open>
  The eviction loop of \<open>cache_insert\<close>: \<open>while (n != NULL && cache->size > cache->max_size)\<close>
  steps to \<open>n->prev\<close> and deletes that node's block.
\<close>

partial_function (option) evict_loop ::
  "(nat \<Rightarrow> bool) \<Rightarrow> cache_t \<Rightarrow> addr \<Rightarrow> (fault + cache_t) option" where
  "evict_loop calloc_ok c n =
     (if n \<noteq> NULL \<and> size_c c > max_size c then
        (case deref (nodes c) n of
           Inl e \<Rightarrow> Some (Inl e)
         | Inr nd \<Rightarrow>
             (case deref (nodes c) (prev_n nd) of
                Inl e \<Rightarrow> Some (Inl e)
              | Inr pd \<Rightarrow>
                  (case cache_delete calloc_ok c (value_n pd) of
                     None \<Rightarrow> None
                   | Some (Inl e) \<Rightarrow> Some (Inl e)
                   | Some (Inr (c', r)) \<Rightarrow> evict_loop calloc_ok c' (prev_n nd))))
      else Some (Inr c))"

declare evict_loop.simps [code]

definition cache_insert ::
  "(nat \<Rightarrow> bool) \<Rightarrow> cache_t \<Rightarrow> byte list \<Rightarrow> byte list \<Rightarrow> (fault + cache_t \<times> int) option" where
  "cache_insert calloc_ok c k v =
     bind_p (Some (the_map c)) (\<lambda>m.
     bind_p (Some (hashmap_find m k)) (\<lambda>found.
       if found \<noteq> NULL then Some (Inr (c, 0))
       else if length v > max_size c then Some (Inr (c, - 1))
       else
         bind_p (Some (get_block c k v)) (\<lambda>(c1, block).
         let c2 = c1\<lparr>size_c := size_c c1 + length v\<rparr> in
         bind_p (evict_loop calloc_ok c2 (head (lru_list c2))) (\<lambda>c3.
         bind_p (Some (the_map c3)) (\<lambda>m3.
         bind_p (hashmap_insert calloc_ok m3 k block) (\<lambda>(m4, r).
         bind_p (Some (list_insert (lru_list c3) (nodes c3) (brk c3) block)) (\<lambda>(l', ns', brk').
           Some (Inr (c3\<lparr>map_c := Some m4, lru_list := l', nodes := ns', brk := brk'\<rparr>, 0)))))))))"

definition cache_find :: "cache_t \<Rightarrow> byte list \<Rightarrow> (fault + cache_t \<times> addr) option" where
  "cache_find c k =
     bind_p (Some (the_map c)) (\<lambda>m.
     bind_p (Some (hashmap_find m k)) (\<lambda>block.
       if block = NULL then Some (Inr (c, NULL))
       else
         bind_p (list_find (lru_list c) (nodes c) block) (\<lambda>node.
         bind_p (Some (list_move_to_head (lru_list c) (nodes c) node)) (\<lambda>(l', ns').
           Some (Inr (c\<lparr>lru_list := l', nodes := ns'\<rparr>, block))))))"

section \<open>Notions used in the statements\<close>

text \<open>The key a bin stores: the \<open>keylen\<close> bytes at \<open>key\<close>.\<close>

definition bin_key :: "bin \<Rightarrow> byte list option" where
  "bin_key b = map_option (take (keylen b)) (key b)"

text \<open>The capacity is at least \<open>minsize\<close>, which is at least 1.\<close>

definition capacity_ok :: "hashmap \<Rightarrow> bool" where
  "capacity_ok m \<longleftrightarrow> 1 \<le> minsize m \<and> minsize m \<le> length (bins m)"

text \<open>
  The Robin-Hood layout.  \<open>pos n h d\<close> is the bin \<open>d\<close> steps after \<open>h\<close> in a table of
  \<open>n\<close> bins and \<open>ideal n b\<close> the bin where the probe for \<open>b\<close>'s hash starts.  A stored
  bin is consistent with its key (\<open>bin_wf\<close>: the recorded length and hash are those of the
  key; an empty bin has length 0, as \<open>calloc\<close> and \<open>hashmap_delete\<close> leave it).  In
  \<open>rh_layout\<close> every stored bin sits \<open>psl\<close> steps after its ideal bin, and each bin on
  the way there is stored and has a \<open>psl\<close> at least its distance from that ideal bin.
\<close>

definition pos :: "nat \<Rightarrow> nat \<Rightarrow> nat \<Rightarrow> nat" where
  "pos n h d = (h + d) mod n"

definition ideal :: "nat \<Rightarrow> bin \<Rightarrow> nat" where
  "ideal n b = unat (hash b) mod n"

definition occupied :: "bin \<Rightarrow> bool" where
  "occupied b \<longleftrightarrow> key b \<noteq> None"

definition bin_wf :: "bin \<Rightarrow> bool" where
  "bin_wf b \<longleftrightarrow>
     (case key b of None \<Rightarrow> keylen b = 0 | Some kb \<Rightarrow> keylen b = length kb \<and> hash b = get_hash kb)"

definition rh_layout :: "bin list \<Rightarrow> bool" where
  "rh_layout bs \<longleftrightarrow>
     (\<forall>i<length bs. occupied (bs ! i) \<longrightarrow>
        psl (bs ! i) < length bs
        \<and> pos (length bs) (ideal (length bs) (bs ! i)) (psl (bs ! i)) = i
        \<and> (\<forall>d<psl (bs ! i).
              occupied (bs ! pos (length bs) (ideal (length bs) (bs ! i)) d)
              \<and> d \<le> psl (bs ! pos (length bs) (ideal (length bs) (bs ! i)) d)))"

definition distinct_keys :: "bin list \<Rightarrow> bool" where
  "distinct_keys bs \<longleftrightarrow>
     (\<forall>i<length bs. \<forall>j<length bs. occupied (bs ! i) \<and> key (bs ! i) = key (bs ! j) \<longrightarrow> i = j)"

definition table_inv :: "bin list \<Rightarrow> bool" where
  "table_inv bs \<longleftrightarrow> bs \<noteq> [] \<and> (\<forall>b\<in>set bs. bin_wf b) \<and> rh_layout bs \<and> distinct_keys bs"

text \<open>
  The recency order as the code can observe it: the blocks met from \<open>head\<close> along \<open>next\<close>
  for \<open>length\<close> steps, and their keys.
\<close>

fun lru_walk :: "(addr \<Rightarrow> node_t option) \<Rightarrow> addr \<Rightarrow> nat \<Rightarrow> addr list" where
  "lru_walk ns p 0 = []"
| "lru_walk ns p (Suc n) =
     (case ns p of None \<Rightarrow> [] | Some nd \<Rightarrow> value_n nd # lru_walk ns (next_n nd) n)"

definition lru_keys :: "cache_t \<Rightarrow> byte list list" where
  "lru_keys c =
     map (\<lambda>p. case blocks c p of None \<Rightarrow> [] | Some b \<Rightarrow> key_b b)
       (lru_walk (nodes c) (head (lru_list c)) (length_l (lru_list c)))"

section \<open>Notions used in the proofs about the hash index and the round trip\<close>

text \<open>
  The key-value pairs and the keys a table stores, and the number of bins in use, which
  \<open>length\<close> has to agree with.  \<open>hm_inv\<close> is the invariant of a \<open>hashmap_t\<close>: the
  Robin-Hood layout, the \<open>length\<close> field, and a capacity of at least \<open>minsize\<close>, which is
  at least 1.
\<close>

definition kvs :: "bin list \<Rightarrow> (byte list \<times> addr) set" where
  "kvs bs = {(kb, val (bs ! j)) | j kb. j < length bs \<and> key (bs ! j) = Some kb}"

definition keys_of :: "bin list \<Rightarrow> byte list set" where
  "keys_of bs = {kb. \<exists>j<length bs. key (bs ! j) = Some kb}"

definition occ_count :: "bin list \<Rightarrow> nat" where
  "occ_count bs = sum_list (map (\<lambda>b. if occupied b then 1 else 0) bs)"

definition hm_inv :: "hashmap \<Rightarrow> bool" where
  "hm_inv m \<longleftrightarrow>
     table_inv (bins m) \<and> length_h m = occ_count (bins m) \<and> 1 \<le> minsize m \<and> minsize m \<le> length (bins m)"

text \<open>
  The probe path of a bin up to its \<open>psl\<close>, and the entry that the displacement loop of
  \<open>hashmap_insert_no_resize\<close> carries when it stands at bin \<open>i\<close>.
\<close>

definition path_ok :: "bin list \<Rightarrow> bin \<Rightarrow> bool" where
  "path_ok bs b \<longleftrightarrow>
     (\<forall>d<psl b. occupied (bs ! pos (length bs) (ideal (length bs) b) d)
                \<and> d \<le> psl (bs ! pos (length bs) (ideal (length bs) b) d))"

definition carry_ok :: "bin list \<Rightarrow> bin \<Rightarrow> nat \<Rightarrow> bool" where
  "carry_ok bs e i \<longleftrightarrow>
     occupied e \<and> bin_wf e \<and> pos (length bs) (ideal (length bs) e) (psl e) = i \<and> path_ok bs e"

text \<open>
  The layout while the backward shift of \<open>hashmap_delete\<close> stands at bin \<open>i\<close>: the table
  is well-formed except that probe paths may run through \<open>i\<close>, whose content no longer
  counts.
\<close>

definition path_hole :: "bin list \<Rightarrow> nat \<Rightarrow> bin \<Rightarrow> bool" where
  "path_hole bs i b \<longleftrightarrow>
     (\<forall>d<psl b. pos (length bs) (ideal (length bs) b) d = i
         \<or> (occupied (bs ! pos (length bs) (ideal (length bs) b) d)
            \<and> d \<le> psl (bs ! pos (length bs) (ideal (length bs) b) d)))"

definition hole_inv :: "bin list \<Rightarrow> nat \<Rightarrow> bool" where
  "hole_inv bs i \<longleftrightarrow>
     i < length bs \<and> (\<forall>b\<in>set bs. bin_wf b)
     \<and> (\<forall>t<length bs. t \<noteq> i \<and> occupied (bs ! t) \<longrightarrow>
           psl (bs ! t) < length bs
           \<and> pos (length bs) (ideal (length bs) (bs ! t)) (psl (bs ! t)) = t
           \<and> path_hole bs i (bs ! t))
     \<and> (\<forall>a<length bs. \<forall>b<length bs.
           a \<noteq> i \<and> b \<noteq> i \<and> occupied (bs ! a) \<and> key (bs ! a) = key (bs ! b) \<longrightarrow> a = b)"

text \<open>
  \<open>has_val\<close>: the node at an address carries a given block.  \<open>evict_inv\<close>: what the eviction
  loop of \<open>cache_insert\<close> keeps while the new block for key \<open>k\<close> at address \<open>b0\<close> is not
  yet indexed.
\<close>

definition has_val :: "(addr \<Rightarrow> node_t option) \<Rightarrow> addr \<Rightarrow> addr \<Rightarrow> bool" where
  "has_val ns a v \<longleftrightarrow> (\<exists>nd. ns a = Some nd \<and> value_n nd = v)"

definition evict_inv :: "byte list \<Rightarrow> addr \<Rightarrow> block_t \<Rightarrow> nat \<Rightarrow> addr \<Rightarrow> cache_t \<Rightarrow> bool" where
  "evict_inv k b0 blk0 N B c \<longleftrightarrow>
     (\<exists>m. map_c c = Some m \<and> hm_inv m \<and> k \<notin> keys_of (bins m) \<and> length (bins m) \<le> N)
     \<and> blocks c b0 = Some blk0 \<and> brk c = B"

section \<open>Example runs\<close>

text \<open>
  Two allocators: one under which every \<open>calloc\<close> succeeds, one under which \<open>calloc\<close>
  succeeds up to a limit.  \<open>then_insert\<close>, \<open>then_find\<close> and \<open>then_delete\<close> continue a run
  with one more call and keep the cache.
\<close>

definition calloc_always :: "nat \<Rightarrow> bool" where
  "calloc_always n = True"

definition calloc_upto :: "nat \<Rightarrow> nat \<Rightarrow> bool" where
  "calloc_upto lim n = (n \<le> lim)"

definition then_insert ::
  "(nat \<Rightarrow> bool) \<Rightarrow> byte list \<Rightarrow> byte list \<Rightarrow> (fault + cache_t) option \<Rightarrow> (fault + cache_t) option" where
  "then_insert calloc_ok k v r =
     bind_p r (\<lambda>c. bind_p (cache_insert calloc_ok c k v) (\<lambda>(c', rc). Some (Inr c')))"

definition then_find :: "byte list \<Rightarrow> (fault + cache_t) option \<Rightarrow> (fault + cache_t) option" where
  "then_find k r = bind_p r (\<lambda>c. bind_p (cache_find c k) (\<lambda>(c', block). Some (Inr c')))"

definition then_delete ::
  "(nat \<Rightarrow> bool) \<Rightarrow> addr \<Rightarrow> (fault + cache_t) option \<Rightarrow> (fault + cache_t) option" where
  "then_delete calloc_ok block r =
     bind_p r (\<lambda>c. bind_p (cache_delete calloc_ok c block) (\<lambda>(c', rc). Some (Inr c')))"

text \<open>
  The hash index after \<open>hashmap_init(1)\<close> and the inserts of "a", "b", "c", "d" with the
  values 1, 3, 5, 7.
\<close>

definition map_a :: hashmap where
  "map_a = \<lparr>minsize = 1, length_h = 1,
      bins = [\<lparr>key = Some [97], val = 1, hash = 177670, psl = 0, keylen = 1\<rparr>]\<rparr>"

definition map_ab :: hashmap where
  "map_ab = \<lparr>minsize = 1, length_h = 2,
      bins = [\<lparr>key = Some [97], val = 1, hash = 177670, psl = 0, keylen = 1\<rparr>,
              \<lparr>key = Some [98], val = 3, hash = 177671, psl = 0, keylen = 1\<rparr>]\<rparr>"

definition map_abc :: hashmap where
  "map_abc = \<lparr>minsize = 1, length_h = 3,
      bins = [\<lparr>key = Some [99], val = 5, hash = 177672, psl = 0, keylen = 1\<rparr>,
              empty_bin,
              \<lparr>key = Some [97], val = 1, hash = 177670, psl = 0, keylen = 1\<rparr>,
              \<lparr>key = Some [98], val = 3, hash = 177671, psl = 0, keylen = 1\<rparr>]\<rparr>"

definition map_abcd :: hashmap where
  "map_abcd = \<lparr>minsize = 1, length_h = 4,
      bins = [\<lparr>key = Some [99], val = 5, hash = 177672, psl = 0, keylen = 1\<rparr>,
              \<lparr>key = Some [100], val = 7, hash = 177673, psl = 0, keylen = 1\<rparr>,
              \<lparr>key = Some [97], val = 1, hash = 177670, psl = 0, keylen = 1\<rparr>,
              \<lparr>key = Some [98], val = 3, hash = 177671, psl = 0, keylen = 1\<rparr>]\<rparr>"

text \<open>
  The cache after \<open>cache_init(16)\<close> and \<open>cache_insert("a", 8 bytes)\<close>; after a second insert
  \<open>cache_insert("b", 8 bytes)\<close>; and after that second insert when the \<open>calloc\<close> of the
  two-bin table fails.
\<close>

definition cache_a :: cache_t where
  "cache_a =
     \<lparr>map_c = Some map_a,
      lru_list = \<lparr>head = 2, length_l = 1\<rparr>, size_c = 8, max_size = 16,
      nodes = Map.empty(2 \<mapsto> \<lparr>next_n = 2, prev_n = 2, value_n = 1\<rparr>),
      blocks = Map.empty(1 \<mapsto> \<lparr>key_b = [97], value_b = replicate 8 0, size_b = 8, keylen_b = 1\<rparr>),
      brk = 3\<rparr>"

definition cache_ab :: cache_t where
  "cache_ab =
     \<lparr>map_c = Some map_ab,
      lru_list = \<lparr>head = 4, length_l = 2\<rparr>, size_c = 16, max_size = 16,
      nodes = Map.empty(2 \<mapsto> \<lparr>next_n = 4, prev_n = 4, value_n = 1\<rparr>,
                        4 \<mapsto> \<lparr>next_n = 2, prev_n = 2, value_n = 3\<rparr>),
      blocks = Map.empty(1 \<mapsto> \<lparr>key_b = [97], value_b = replicate 8 0, size_b = 8, keylen_b = 1\<rparr>,
                         3 \<mapsto> \<lparr>key_b = [98], value_b = replicate 8 1, size_b = 8, keylen_b = 1\<rparr>),
      brk = 5\<rparr>"

definition cache_b_unindexed :: cache_t where
  "cache_b_unindexed =
     \<lparr>map_c = Some map_a,
      lru_list = \<lparr>head = 4, length_l = 2\<rparr>, size_c = 16, max_size = 16,
      nodes = Map.empty(2 \<mapsto> \<lparr>next_n = 4, prev_n = 4, value_n = 1\<rparr>,
                        4 \<mapsto> \<lparr>next_n = 2, prev_n = 2, value_n = 3\<rparr>),
      blocks = Map.empty(1 \<mapsto> \<lparr>key_b = [97], value_b = replicate 8 0, size_b = 8, keylen_b = 1\<rparr>,
                         3 \<mapsto> \<lparr>key_b = [98], value_b = replicate 8 1, size_b = 8, keylen_b = 1\<rparr>),
      brk = 5\<rparr>"

text \<open>\<open>cache_init(30)\<close> followed by the inserts of "a", "b", "c", 10 bytes each.\<close>

definition run_abc :: "(fault + cache_t) option" where
  "run_abc =
     then_insert calloc_always [99] (replicate 10 2)
       (then_insert calloc_always [98] (replicate 10 1)
         (then_insert calloc_always [97] (replicate 10 0) (cache_init calloc_always 30)))"

section \<open>Evaluation\<close>

lemmas eval_defs =
  then_insert_def then_find_def then_delete_def calloc_always_def calloc_upto_def
  cache_init_def cache_insert_def cache_find_def cache_delete_def get_block_def the_map_def
  evict_loop.simps bind_p_def bind_f_def deref_def free_def
  list_init_def list_insert_def list_insert_head_def list_delete_def list_move_to_head_def
  list_find_def list_find_loop.simps set_prev_def set_next_def
  hashmap_init_def hashmap_resize_def hashmap_insert_def hashmap_insert_no_resize_def
  hashmap_delete_def hashmap_find_def insert_loop.simps find_loop.simps delete_probe.simps
  shift_back.simps clear_bin_def empty_bin_def bin_faults_def bin_matches_def get_hash_def
  approx_85_percent_def approx_40_percent_def HASHMAP_MAX_def HASHMAP_MAX_GROWTH_STEP_def
  drop_bit_eq_div push_bit_eq_mult Let_def numeral_2_eq_2 [symmetric]

lemma replicate_numeral_eval: "replicate (numeral v) x = x # replicate (numeral v - 1) x"
  by (simp add: numeral_eq_Suc)

lemma list_update_numeral_eval: "(x # xs)[numeral v := y] = x # xs[numeral v - 1 := y]"
  by (simp add: numeral_eq_Suc)

lemma lru_walk_numeral_eval:
  "lru_walk ns p (numeral v) =
     (case ns p of None \<Rightarrow> [] | Some nd \<Rightarrow> value_n nd # lru_walk ns (next_n nd) (numeral v - 1))"
  by (simp add: numeral_eq_Suc split: option.splits)

lemmas eval_defs2 = eval_defs replicate_numeral_eval list_update_numeral_eval

lemmas eval_defs3 = eval_defs2 lru_keys_def lru_walk_numeral_eval

lemma map_abc_reached:
  "hashmap_init calloc_always 1 = Some (Inr (Some \<lparr>minsize = 1, length_h = 0, bins = [empty_bin]\<rparr>))"
  "hashmap_insert calloc_always \<lparr>minsize = 1, length_h = 0, bins = [empty_bin]\<rparr> [97] 1 = Some (Inr (map_a, 1))"
  "hashmap_insert calloc_always map_a [98] 3 = Some (Inr (map_ab, 3))"
  "hashmap_insert calloc_always map_ab [99] 5 = Some (Inr (map_abc, 5))"
  by (simp_all add: eval_defs2 map_a_def map_ab_def map_abc_def)

lemma cache_a_reached:
  "then_insert calloc_always [97] (replicate 8 0) (cache_init calloc_always 16) = Some (Inr cache_a)"
  by (simp add: eval_defs2 cache_a_def map_a_def)

lemma cache_ab_reached:
  "cache_insert calloc_always cache_a [98] (replicate 8 1) = Some (Inr (cache_ab, 0))"
  by (simp add: eval_defs2 cache_a_def cache_ab_def map_a_def map_ab_def fun_eq_iff)

lemma cache_b_unindexed_reached:
  "cache_insert (calloc_upto 1) cache_a [98] (replicate 8 1) = Some (Inr (cache_b_unindexed, 0))"
  by (simp add: eval_defs cache_a_def cache_b_unindexed_def map_a_def fun_eq_iff)

section \<open>The shape of the results of the hash-index operations\<close>

lemma find_loop_no_div: "find_loop bs h k n i \<noteq> Inl DivisionByZero"
proof (induction bs h k n i rule: find_loop.induct)
  case (1 bs h k n i)
  then show ?case by (subst find_loop.simps) auto
qed

lemma delete_probe_absent:
  assumes "\<forall>b\<in>set bs. bin_key b \<noteq> Some k" and "i < length bs"
  shows "delete_probe bs h k n i = Inr None"
  using assms
proof (induction bs h k n i rule: delete_probe.induct)
  case (1 bs h k n i)
  have nomatch: "\<not> bin_matches (bs ! i) h k" if "key (bs ! i) \<noteq> None"
  proof
    assume m: "bin_matches (bs ! i) h k"
    from that obtain kb where kb: "key (bs ! i) = Some kb" by auto
    with m have "bin_key (bs ! i) = Some k" by (simp add: bin_matches_def bin_key_def)
    moreover have "bs ! i \<in> set bs" using "1.prems" by simp
    ultimately show False using "1.prems" by blast
  qed
  have "0 < length bs" using "1.prems" by (cases bs) simp_all
  then have nxt: "(i + 1) mod length bs < length bs" by (rule mod_less_divisor)
  show ?case
    using 1 nomatch nxt by (subst delete_probe.simps) auto
qed

lemma insert_loop_shape_aux:
  assumes "insert_loop bs h k v e i = Some y"
  shows "i < length bs \<longrightarrow> (\<exists>bs' placed. y = Inr (bs', placed) \<and> length bs' = length bs)"
proof (rule insert_loop.raw_induct [where P = "\<lambda>bs h k v e i y.
    i < length bs \<longrightarrow> (\<exists>bs' placed. y = Inr (bs', placed) \<and> length bs' = length bs)",
    OF _ assms], goal_cases)
  case (1 f bs h k v e i y)
  show ?case
  proof
    assume i: "i < length bs"
    then have "0 < length bs" by (cases bs) simp_all
    then have nxt: "(i + 1) mod length bs < length bs" by (rule mod_less_divisor)
    show "\<exists>bs' placed. y = Inr (bs', placed) \<and> length bs' = length bs"
      using 1(2) i nxt by (auto split: if_splits dest!: 1(1))
  qed
qed

lemma insert_loop_shape:
  assumes "insert_loop bs h k v e i = Some y" and "i < length bs"
  shows "\<exists>bs' placed. y = Inr (bs', placed) \<and> length bs' = length bs"
  using insert_loop_shape_aux [OF assms(1)] assms(2) by blast

lemma hashmap_insert_no_resize_shape:
  assumes "hashmap_insert_no_resize m k v = Some y" and "bins m \<noteq> []"
  shows "\<exists>m'. y = Inr (m', v) \<and> length (bins m') = length (bins m) \<and> minsize m' = minsize m"
proof -
  have "0 < length (bins m)" using assms(2) by simp
  then have "unat (get_hash k) mod length (bins m) < length (bins m)" by (rule mod_less_divisor)
  with assms show ?thesis
    by (auto simp: hashmap_insert_no_resize_def split: option.splits sum.splits prod.splits
        dest!: insert_loop_shape)
qed

lemma reinsert_shape:
  assumes "reinsert old m = Some y" and "bins m \<noteq> []"
  shows "\<exists>m'. y = Inr m' \<and> length (bins m') = length (bins m) \<and> minsize m' = minsize m"
  using assms
proof (induction old arbitrary: m)
  case Nil
  then show ?case by auto
next
  case (Cons b old)
  show ?case
  proof (cases "key b")
    case None
    with Cons show ?thesis by simp
  next
    case (Some kb)
    from Cons.prems Some obtain y1 where y1: "hashmap_insert_no_resize m (take (keylen b) kb) (val b) = Some y1"
      by (auto split: option.splits)
    from hashmap_insert_no_resize_shape [OF y1 Cons.prems(2)]
    obtain m1 where m1: "y1 = Inr (m1, val b)" "length (bins m1) = length (bins m)" "minsize m1 = minsize m"
      by blast
    have "bins m1 \<noteq> []" using m1(2) Cons.prems(2) by auto
    moreover have "reinsert old m1 = Some y" using Cons.prems(1) Some y1 m1(1) by simp
    ultimately show ?thesis using Cons.IH m1 by metis
  qed
qed

lemma hashmap_resize_shape:
  assumes "hashmap_resize calloc_ok m n = Some y" and "0 < n \<or> (\<forall>b\<in>set (bins m). key b = None)"
  shows "\<exists>m' rc. y = Inr (m', rc) \<and> minsize m' = minsize m
      \<and> (if n \<le> HASHMAP_MAX \<and> calloc_ok n then rc = 0 \<and> length (bins m') = n else rc = - 1 \<and> m' = m)"
proof (cases "n \<le> HASHMAP_MAX \<and> calloc_ok n")
  case False
  with assms(1) show ?thesis by (auto simp: hashmap_resize_def split: if_splits)
next
  case True
  let ?m0 = "m\<lparr>bins := replicate n empty_bin, length_h := 0\<rparr>"
  from assms(1) True obtain y1 where y1: "reinsert (bins m) ?m0 = Some y1"
    by (auto simp: hashmap_resize_def split: option.splits)
  show ?thesis
  proof (cases "0 < n")
    case n: True
    then have "bins ?m0 \<noteq> []" by simp
    from reinsert_shape [OF y1 this] obtain m' where "y1 = Inr m'" "length (bins m') = n" "minsize m' = minsize m"
      by auto
    with assms(1) True y1 show ?thesis by (auto simp: hashmap_resize_def)
  next
    case False
    with assms(2) have nokeys: "\<forall>b\<in>set (bins m). key b = None" by simp
    have "reinsert old m0 = Some (Inr m0)" if "\<forall>b\<in>set old. key b = None" for old m0
      using that by (induction old) simp_all
    with nokeys y1 have "y1 = Inr ?m0" by simp
    with assms(1) True y1 False show ?thesis by (auto simp: hashmap_resize_def)
  qed
qed

lemma shift_back_shape:
  "i < length bs \<Longrightarrow> \<exists>bs'. shift_back bs i = Inr bs' \<and> length bs' = length bs"
proof (induction bs i rule: shift_back.induct)
  case (1 bs i)
  have "0 < length bs" using "1.prems" by (cases bs) simp_all
  then have nxt: "(i + 1) mod length bs < length bs" by (rule mod_less_divisor)
  show ?case
    using 1 nxt by (subst shift_back.simps) (auto simp: Let_def)
qed

lemma delete_probe_shape:
  "i < length bs \<Longrightarrow> \<exists>r. delete_probe bs h k n i = Inr r \<and> (\<forall>j. r = Some j \<longrightarrow> j < length bs)"
proof (induction bs h k n i rule: delete_probe.induct)
  case (1 bs h k n i)
  have "0 < length bs" using "1.prems" by (cases bs) simp_all
  then have nxt: "(i + 1) mod length bs < length bs" by (rule mod_less_divisor)
  show ?case
    using 1 nxt by (subst delete_probe.simps) auto
qed

lemma hashmap_insert_shape:
  assumes "hashmap_insert calloc_ok m k v = Some y" and "bins m \<noteq> []"
  shows "\<exists>m' r. y = Inr (m', r) \<and> minsize m' = minsize m \<and>
     (if length_h m > approx_85_percent (length (bins m)) then
        (if min (length (bins m) * 2) (length (bins m) + HASHMAP_MAX_GROWTH_STEP) \<le> HASHMAP_MAX
            \<and> calloc_ok (min (length (bins m) * 2) (length (bins m) + HASHMAP_MAX_GROWTH_STEP))
         then length (bins m') = min (length (bins m) * 2) (length (bins m) + HASHMAP_MAX_GROWTH_STEP)
              \<and> r = v
         else m' = m \<and> r = NULL)
      else length (bins m') = length (bins m) \<and> r = v)"
proof (cases "length_h m > approx_85_percent (length (bins m))")
  case False
  with assms hashmap_insert_no_resize_shape [of m k v y] show ?thesis
    by (auto simp: hashmap_insert_def Let_def)
next
  case True
  let ?new = "min (length (bins m) * 2) (length (bins m) + HASHMAP_MAX_GROWTH_STEP)"
  have pos: "0 < ?new" using assms(2) by (simp add: HASHMAP_MAX_GROWTH_STEP_def)
  have pb: "push_bit 1 (length (bins m)) = length (bins m) * 2" by (simp add: push_bit_eq_mult)
  from assms(1) True obtain y1 where y1: "hashmap_resize calloc_ok m ?new = Some y1"
    by (auto simp: hashmap_insert_def Let_def pb split: option.splits)
  from hashmap_resize_shape [OF y1] pos obtain m1 rc where m1: "y1 = Inr (m1, rc)" "minsize m1 = minsize m"
    "if ?new \<le> HASHMAP_MAX \<and> calloc_ok ?new then rc = 0 \<and> length (bins m1) = ?new else rc = - 1 \<and> m1 = m"
    by blast
  show ?thesis
  proof (cases "?new \<le> HASHMAP_MAX \<and> calloc_ok ?new")
    case ok: True
    with m1 have rc: "rc = 0" and len: "length (bins m1) = ?new" by simp_all
    have "0 < length (bins m1)" by (simp only: len pos)
    then have ne: "bins m1 \<noteq> []" by auto
    from assms(1) True y1 m1(1) rc have "hashmap_insert_no_resize m1 k v = Some y"
      by (simp add: hashmap_insert_def Let_def pb)
    from hashmap_insert_no_resize_shape [OF this ne] m1(2) len True ok show ?thesis
      by auto
  next
    case bad: False
    with m1 have "rc = - 1" "m1 = m" by simp_all
    with assms(1) True y1 m1(1) bad show ?thesis
      by (auto simp: hashmap_insert_def Let_def pb)
  qed
qed

lemma hashmap_delete_shape:
  assumes "hashmap_delete calloc_ok m k = Some y" and "capacity_ok m"
  shows "\<exists>m' r. y = Inr (m', r) \<and> capacity_ok m'"
proof -
  have ne: "bins m \<noteq> []" using assms(2) by (auto simp: capacity_ok_def)
  then have "0 < length (bins m)" by simp
  then have i0: "unat (get_hash k) mod length (bins m) < length (bins m)" by (rule mod_less_divisor)
  from delete_probe_shape [OF i0] obtain r where
    r: "delete_probe (bins m) (get_hash k) k 0 (unat (get_hash k) mod length (bins m)) = Inr r"
    and rb: "\<forall>j. r = Some j \<longrightarrow> j < length (bins m)"
    by blast
  show ?thesis
  proof (cases r)
    case None
    with assms r ne show ?thesis by (auto simp: hashmap_delete_def Let_def)
  next
    case (Some i)
    with rb have "i < length (bins m)" by simp
    from shift_back_shape [OF this] obtain bs where
      bs: "shift_back (bins m) i = Inr bs" "length bs = length (bins m)" by blast
    let ?m1 = "m\<lparr>bins := bs, length_h := length_h m - 1\<rparr>"
    have ok1: "capacity_ok ?m1" using assms(2) bs(2) by (simp add: capacity_ok_def)
    show ?thesis
    proof (cases "length_h ?m1 > minsize ?m1 \<and> length_h ?m1 < approx_40_percent (length (bins m))")
      case False
      with assms(1) r Some bs ne ok1 show ?thesis
        by (auto simp: hashmap_delete_def Let_def)
    next
      case True
      let ?n = "max (drop_bit 1 (length (bins ?m1))) (minsize ?m1)"
      from assms(1) r Some bs ne True obtain y1 where y1: "hashmap_resize calloc_ok ?m1 ?n = Some y1"
        by (auto simp: hashmap_delete_def Let_def split: option.splits)
      have pos: "0 < ?n" using ok1 by (auto simp: capacity_ok_def)
      from hashmap_resize_shape [OF y1] pos obtain m2 rc where m2: "y1 = Inr (m2, rc)" "minsize m2 = minsize ?m1"
        "if ?n \<le> HASHMAP_MAX \<and> calloc_ok ?n then rc = 0 \<and> length (bins m2) = ?n else rc = - 1 \<and> m2 = ?m1"
        by blast
      have "capacity_ok m2"
      proof (cases "?n \<le> HASHMAP_MAX \<and> calloc_ok ?n")
        case True
        with m2 have "length (bins m2) = ?n" by simp
        with m2(2) ok1 show ?thesis by (simp add: capacity_ok_def)
      next
        case False
        with m2 ok1 show ?thesis by simp
      qed
      with assms(1) r Some bs ne True y1 m2(1) show ?thesis
        by (auto simp: hashmap_delete_def Let_def)
    qed
  qed
qed

lemma hashmap_init_eq:
  "hashmap_init calloc_ok n =
     Some (Inr (if max n 1 \<le> HASHMAP_MAX \<and> calloc_ok (max n 1)
                then Some \<lparr>minsize = max n 1, length_h = 0, bins = replicate (max n 1) empty_bin\<rparr>
                else None))"
  by (auto simp: hashmap_init_def hashmap_resize_def Let_def)

section \<open>Lookup in a table with the Robin-Hood layout\<close>

lemma pos_less: "0 < n \<Longrightarrow> pos n h d < n"
  by (simp add: pos_def)

lemma pos_inj:
  assumes "d < n" and "d' < n" and "pos n h d = pos n h d'"
  shows "d = d'"
proof -
  have aux: "a = b" if "a \<le> b" "b < n" "(h + a) mod n = (h + b) mod n" for a b :: nat
  proof -
    from that(3) have "n dvd (h + b) - (h + a)"
      using that(1) by (metis add_le_cancel_left mod_eq_dvd_iff_nat)
    then have "n dvd b - a" by simp
    moreover have "b - a < n" using that(2) by simp
    ultimately have "b - a = 0" by (meson dvd_imp_le not_less zero_less_iff_neq_zero)
    with that(1) show ?thesis by simp
  qed
  show ?thesis
  proof (cases "d \<le> d'")
    case True
    with assms aux [of d d'] show ?thesis by (simp add: pos_def)
  next
    case False
    then have "d' \<le> d" by simp
    with assms aux [of d' d] show ?thesis by (simp add: pos_def)
  qed
qed

lemma pos_Suc: "(pos n h d + 1) mod n = pos n h (d + 1)"
  by (simp add: pos_def mod_simps)

lemma pos_Suc': "Suc (pos n h d) mod n = pos n h (Suc d)"
  by (simp add: pos_def mod_simps)

lemma pos_0: "pos n (ideal n b) 0 = ideal n b"
  by (simp add: pos_def ideal_def)

lemma find_loop_absent:
  assumes "\<forall>b\<in>set bs. bin_wf b" and "k \<noteq> []" and "\<forall>b\<in>set bs. key b \<noteq> Some k" and "i < length bs"
  shows "find_loop bs h k n i = Inr NULL"
  using assms
proof (induction bs h k n i rule: find_loop.induct)
  case (1 bs h k n i)
  have mem: "bs ! i \<in> set bs" using "1.prems" by simp
  then have wf: "bin_wf (bs ! i)" and ab: "key (bs ! i) \<noteq> Some k" using "1.prems" by blast+
  have nf: "\<not> bin_faults (bs ! i) h k"
    using wf "1.prems"(2) by (auto simp: bin_faults_def bin_wf_def split: option.splits)
  have nm: "\<not> bin_matches (bs ! i) h k"
    using wf ab "1.prems"(2) by (auto simp: bin_matches_def bin_wf_def split: option.splits)
  have "0 < length bs" using "1.prems" by (cases bs) simp_all
  then have nxt: "(i + 1) mod length bs < length bs" by (rule mod_less_divisor)
  show ?case
    using 1 nf nm nxt by (subst find_loop.simps) auto
qed

lemma find_loop_walk:
  assumes inv: "table_inv bs" and j: "j < length bs" and kj: "key (bs ! j) = Some k"
    and n: "n \<le> psl (bs ! j)"
  shows "find_loop bs (get_hash k) k n (pos (length bs) (ideal (length bs) (bs ! j)) n) = Inr (val (bs ! j))"
  using n
proof (induction "psl (bs ! j) - n" arbitrary: n)
  case 0
  let ?N = "length bs"
  from inv j kj have lay: "psl (bs ! j) < ?N" "pos ?N (ideal ?N (bs ! j)) (psl (bs ! j)) = j"
    by (auto simp: table_inv_def rh_layout_def occupied_def)
  from inv j have wf: "bin_wf (bs ! j)" by (auto simp: table_inv_def)
  from 0 have "n = psl (bs ! j)" by simp
  moreover have "bin_matches (bs ! j) (get_hash k) k" "\<not> bin_faults (bs ! j) (get_hash k) k"
    using wf kj by (auto simp: bin_matches_def bin_faults_def bin_wf_def)
  ultimately show ?case
    using lay j by (subst find_loop.simps) simp
next
  case (Suc x)
  let ?N = "length bs"
  let ?h = "ideal ?N (bs ! j)"
  let ?i = "pos ?N ?h n"
  have Npos: "0 < ?N" using j by (cases bs) simp_all
  from Suc have nlt: "n < psl (bs ! j)" by simp
  from inv j kj have lay: "psl (bs ! j) < ?N" "pos ?N ?h (psl (bs ! j)) = j"
     and path: "occupied (bs ! ?i)" "n \<le> psl (bs ! ?i)"
    using nlt by (auto simp: table_inv_def rh_layout_def occupied_def)
  have i: "?i < ?N" using Npos by (rule pos_less)
  have ij: "?i \<noteq> j"
  proof
    assume "?i = j"
    with lay(2) have "pos ?N ?h n = pos ?N ?h (psl (bs ! j))" by simp
    from pos_inj [OF _ lay(1) this] nlt lay(1) show False by simp
  qed
  from inv i have wf: "bin_wf (bs ! ?i)" by (auto simp: table_inv_def)
  from inv have dk: "distinct_keys bs" by (simp add: table_inv_def)
  have nm: "\<not> bin_matches (bs ! ?i) (get_hash k) k"
  proof
    assume m: "bin_matches (bs ! ?i) (get_hash k) k"
    from path(1) obtain kb where kb: "key (bs ! ?i) = Some kb" by (auto simp: occupied_def)
    with m wf have "kb = k" by (auto simp: bin_matches_def bin_wf_def)
    with kb kj have "key (bs ! ?i) = key (bs ! j)" by simp
    with dk i j path(1) have "?i = j" unfolding distinct_keys_def by blast
    with ij show False ..
  qed
  have nf: "\<not> bin_faults (bs ! ?i) (get_hash k) k"
    using path(1) by (simp add: bin_faults_def occupied_def)
  have IH: "find_loop bs (get_hash k) k (n + 1) (pos ?N ?h (n + 1)) = Inr (val (bs ! j))"
    using Suc.hyps(1) [of "n + 1"] Suc.hyps(2) nlt by simp
  show ?case
    using i nm nf path IH by (subst find_loop.simps) (auto simp: occupied_def pos_Suc')
qed

lemma table_inv_map_abc: "table_inv (bins map_abc)"
  by (simp add: table_inv_def rh_layout_def distinct_keys_def map_abc_def bin_wf_def occupied_def
      ideal_def pos_def empty_bin_def get_hash_def All_less_Suc)

section \<open>Claims about \<open>cache_insert\<close> and \<open>cache_delete\<close> returning early\<close>

text \<open>
  C3.  First write wins: when \<open>hashmap_find\<close> finds the key (the result \<open>p\<close> is not
  \<open>NULL\<close>), \<open>cache_insert\<close> returns 0 and the cache it leaves is the cache it was given:
  the hash index with the stored value, \<open>size_c\<close>, the recency list and the heap are all
  the same, whatever new value \<open>v2\<close> was offered.
\<close>

theorem cache_insert_first_write_wins:
  assumes "map_c c = Some m" and "hashmap_find m k = Inr p" and "p \<noteq> NULL"
  shows "cache_insert calloc_ok c k v2 = Some (Inr (c, 0))"
  using assms by (simp add: cache_insert_def the_map_def bind_p_def)

theorem cache_insert_first_write_wins_witness:
  "cache_insert calloc_always cache_a [97] [9, 9] = Some (Inr (cache_a, 0))"
proof -
  have m: "map_c cache_a = Some map_a"
    by (simp add: cache_a_def)
  have f: "hashmap_find map_a [97] = Inr 1"
    by (simp add: eval_defs map_a_def)
  show ?thesis
    using cache_insert_first_write_wins [OF m f] by simp
qed

text \<open>
  C4, as stated, fails: \<open>cache_insert\<close> looks the key up before it compares the size with
  \<open>max_size\<close>, so an oversized value for a key that is present gets 0, not -1.  Here the
  cache holds "a" and has \<open>max_size = 16\<close>; inserting 17 bytes under "a" returns 0.
\<close>

theorem cache_insert_too_large_present_counterexample:
  "max_size cache_a < length (replicate 17 (0 :: byte))
   \<and> cache_insert calloc_always cache_a [97] (replicate 17 0) = Some (Inr (cache_a, 0))
   \<and> cache_insert calloc_always cache_a [97] (replicate 17 0) \<noteq> Some (Inr (cache_a, - 1))"
  by (simp add: eval_defs cache_a_def map_a_def)

text \<open>
  C4, amended.  For every insertion with size greater than \<open>max_size\<close> the cache is left
  as it was; the result is -1 when the key is not in the hash index and 0 when it is.
\<close>

theorem cache_insert_too_large:
  assumes "map_c c = Some m" and "hashmap_find m k = Inr p" and "length v > max_size c"
  shows "cache_insert calloc_ok c k v = Some (Inr (c, if p = NULL then - 1 else 0))"
  using assms by (simp add: cache_insert_def the_map_def bind_p_def)

theorem cache_insert_too_large_witness:
  "cache_insert calloc_always cache_a [120] (replicate 17 0) = Some (Inr (cache_a, - 1))"
proof -
  have m: "map_c cache_a = Some map_a"
    by (simp add: cache_a_def)
  have f: "hashmap_find map_a [120] = Inr NULL"
    by (simp add: eval_defs map_a_def)
  have l: "length (replicate 17 (0 :: byte)) > max_size cache_a"
    by (simp add: cache_a_def)
  show ?thesis
    using cache_insert_too_large [OF m f l] by simp
qed

text \<open>
  C9.  \<open>cache_delete\<close> on a block whose key no bin of the hash index stores returns -1 and
  leaves the cache as it was.
\<close>

theorem cache_delete_missing_key:
  assumes "map_c c = Some m" and "bins m \<noteq> []" and "deref (blocks c) block = Inr blk"
    and "\<forall>b\<in>set (bins m). bin_key b \<noteq> Some (take (keylen_b blk) (key_b blk))"
  shows "cache_delete calloc_ok c block = Some (Inr (c, - 1))"
proof -
  have "0 < length (bins m)" using assms(2) by simp
  then have "unat (get_hash (take (keylen_b blk) (key_b blk))) mod length (bins m) < length (bins m)"
    by (rule mod_less_divisor)
  then have "hashmap_delete calloc_ok m (take (keylen_b blk) (key_b blk)) = Some (Inr (m, NULL))"
    using assms(2,4) by (simp add: hashmap_delete_def delete_probe_absent)
  then show ?thesis
    using assms(1,3) by (simp add: cache_delete_def the_map_def bind_p_def)
qed

theorem cache_delete_missing_key_witness:
  "cache_delete calloc_always cache_b_unindexed 3 = Some (Inr (cache_b_unindexed, - 1))"
proof -
  have m: "map_c cache_b_unindexed = Some map_a" by (simp add: cache_b_unindexed_def)
  have ne: "bins map_a \<noteq> []" by (simp add: map_a_def)
  have b: "deref (blocks cache_b_unindexed) 3
      = Inr \<lparr>key_b = [98], value_b = replicate 8 1, size_b = 8, keylen_b = 1\<rparr>"
    by (simp add: cache_b_unindexed_def deref_def)
  have a: "\<forall>b\<in>set (bins map_a). bin_key b \<noteq> Some (take (keylen_b \<lparr>key_b = [98], value_b = replicate 8 1, size_b = 8, keylen_b = 1\<rparr>)
      (key_b \<lparr>key_b = [98], value_b = replicate 8 1, size_b = 8, keylen_b = (1::nat)\<rparr>))"
    by (simp add: map_a_def bin_key_def)
  show ?thesis
    by (rule cache_delete_missing_key [OF m ne b a])
qed

section \<open>Claims about the hash index\<close>

text \<open>
  C6.  In a table with the Robin-Hood layout, whose stored keys are distinct, and for a key
  of at least one byte (the keys of the data model), \<open>hashmap_find\<close> probes from
  \<open>hash % size\<close>, returns the value of the bin that stores the key when there is one and
  \<open>NULL\<close> when there is none, and its loop ends with \<open>NULL\<close> at the first bin that does not
  match and is empty or has a \<open>psl\<close> smaller than the probe distance.
\<close>

theorem hashmap_find_robin_hood:
  assumes "table_inv (bins m)" and "k \<noteq> []"
  shows "hashmap_find m k = find_loop (bins m) (get_hash k) k 0 (unat (get_hash k) mod length (bins m))
     \<and> (\<forall>b\<in>set (bins m). key b = Some k \<longrightarrow> hashmap_find m k = Inr (val b))
     \<and> ((\<forall>b\<in>set (bins m). key b \<noteq> Some k) \<longrightarrow> hashmap_find m k = Inr NULL)
     \<and> (\<forall>n i. i < length (bins m) \<and> \<not> bin_matches (bins m ! i) (get_hash k) k
            \<and> (key (bins m ! i) = None \<or> n > psl (bins m ! i))
          \<longrightarrow> find_loop (bins m) (get_hash k) k n i = Inr NULL)"
proof (intro conjI ballI impI allI)
  from assms(1) have ne: "bins m \<noteq> []" and wf: "\<forall>b\<in>set (bins m). bin_wf b"
    by (simp_all add: table_inv_def)
  from ne have "0 < length (bins m)" by simp
  then have i0: "unat (get_hash k) mod length (bins m) < length (bins m)" by (rule mod_less_divisor)
  show start: "hashmap_find m k
      = find_loop (bins m) (get_hash k) k 0 (unat (get_hash k) mod length (bins m))"
    using ne by (simp add: hashmap_find_def)
  {
    fix b assume b: "b \<in> set (bins m)" "key b = Some k"
    then obtain j where j: "j < length (bins m)" "bins m ! j = b" by (auto simp: in_set_conv_nth)
    from wf b have "hash b = get_hash k" by (auto simp: bin_wf_def)
    then have "ideal (length (bins m)) (bins m ! j) = unat (get_hash k) mod length (bins m)"
      using j by (simp add: ideal_def)
    with find_loop_walk [OF assms(1) j(1), of k 0] j b
    show "hashmap_find m k = Inr (val b)"
      by (simp add: start pos_def)
  }
  {
    assume "\<forall>b\<in>set (bins m). key b \<noteq> Some k"
    from find_loop_absent [OF wf assms(2) this i0]
    show "hashmap_find m k = Inr NULL" by (simp add: start)
  }
  {
    fix n i
    assume a: "i < length (bins m) \<and> \<not> bin_matches (bins m ! i) (get_hash k) k
            \<and> (key (bins m ! i) = None \<or> n > psl (bins m ! i))"
    then have "bin_wf (bins m ! i)" using wf by simp
    then have "\<not> bin_faults (bins m ! i) (get_hash k) k"
      using assms(2) by (auto simp: bin_faults_def bin_wf_def split: option.splits)
    with a show "find_loop (bins m) (get_hash k) k n i = Inr NULL"
      by (subst find_loop.simps) auto
  }
qed

theorem hashmap_find_robin_hood_witness:
  "table_inv (bins map_abc) \<and> hashmap_find map_abc [98] = Inr 3 \<and> hashmap_find map_abc [100] = Inr NULL"
proof -
  have k1: "[98 :: byte] \<noteq> []" and k2: "[100 :: byte] \<noteq> []" by simp_all
  have b: "\<lparr>key = Some [98], val = 3, hash = 177671, psl = 0, keylen = 1\<rparr> \<in> set (bins map_abc)"
    by (simp add: map_abc_def)
  have a: "\<forall>b\<in>set (bins map_abc). key b \<noteq> Some [100]"
    by (simp add: map_abc_def empty_bin_def)
  from hashmap_find_robin_hood [OF table_inv_map_abc k1] b
  have "hashmap_find map_abc [98] = Inr 3" by fastforce
  moreover from hashmap_find_robin_hood [OF table_inv_map_abc k2] a
  have "hashmap_find map_abc [100] = Inr NULL" by blast
  ultimately show ?thesis using table_inv_map_abc by simp
qed

text \<open>
  C10.  The capacity is never zero.  \<open>hashmap_init\<close> clamps \<open>minsize\<close> to at least 1 and
  makes a table of that many bins (or returns \<open>NULL\<close> when the table cannot be allocated);
  \<open>hashmap_insert\<close> and \<open>hashmap_delete\<close>, started on a table with
  \<open>1 \<le> minsize \<le> capacity\<close>, return without a fault and leave such a table; so
  \<open>hash % map->size\<close> in find, insert and delete never divides by zero.
\<close>

theorem hashmap_capacity_never_zero:
  "hashmap_init calloc_ok n =
     Some (Inr (if max n 1 \<le> HASHMAP_MAX \<and> calloc_ok (max n 1)
                then Some \<lparr>minsize = max n 1, length_h = 0, bins = replicate (max n 1) empty_bin\<rparr>
                else None))
   \<and> (hashmap_init calloc_ok n = Some (Inr (Some m0)) \<longrightarrow> capacity_ok m0 \<and> length (bins m0) = max n 1)
   \<and> (capacity_ok m \<and> hashmap_insert calloc_ok m k v = Some y
        \<longrightarrow> (\<exists>m' r. y = Inr (m', r) \<and> capacity_ok m'))
   \<and> (capacity_ok m \<and> hashmap_delete calloc_ok m k = Some y
        \<longrightarrow> (\<exists>m' r. y = Inr (m', r) \<and> capacity_ok m'))
   \<and> (capacity_ok m \<longrightarrow> hashmap_find m k \<noteq> Inl DivisionByZero)"
proof (intro conjI impI)
  show "hashmap_init calloc_ok n =
     Some (Inr (if max n 1 \<le> HASHMAP_MAX \<and> calloc_ok (max n 1)
                then Some \<lparr>minsize = max n 1, length_h = 0, bins = replicate (max n 1) empty_bin\<rparr>
                else None))"
    by (rule hashmap_init_eq)
next
  assume "hashmap_init calloc_ok n = Some (Inr (Some m0))"
  then have "m0 = \<lparr>minsize = max n 1, length_h = 0, bins = replicate (max n 1) empty_bin\<rparr>"
    by (simp add: hashmap_init_eq split: if_splits)
  then show "capacity_ok m0" and "length (bins m0) = max n 1"
    by (simp_all add: capacity_ok_def)
next
  assume a: "capacity_ok m \<and> hashmap_insert calloc_ok m k v = Some y"
  then have ne: "bins m \<noteq> []" by (auto simp: capacity_ok_def)
  from hashmap_insert_shape [OF conjunct2 [OF a] ne] obtain m' r where
    y: "y = Inr (m', r)" and ms: "minsize m' = minsize m" and
    cap: "length (bins m') = length (bins m)
        \<or> length (bins m') = min (length (bins m) * 2) (length (bins m) + HASHMAP_MAX_GROWTH_STEP)
        \<or> m' = m"
    by (auto split: if_splits)
  from cap ms a have "capacity_ok m'"
    by (auto simp: capacity_ok_def HASHMAP_MAX_GROWTH_STEP_def)
  with y show "\<exists>m' r. y = Inr (m', r) \<and> capacity_ok m'" by blast
next
  assume "capacity_ok m \<and> hashmap_delete calloc_ok m k = Some y"
  then show "\<exists>m' r. y = Inr (m', r) \<and> capacity_ok m'"
    using hashmap_delete_shape by blast
next
  assume "capacity_ok m"
  then have "bins m \<noteq> []" by (auto simp: capacity_ok_def)
  then show "hashmap_find m k \<noteq> Inl DivisionByZero"
    by (simp add: hashmap_find_def find_loop_no_div)
qed

theorem hashmap_capacity_never_zero_witness:
  "hashmap_init calloc_always 0 = Some (Inr (Some \<lparr>minsize = 1, length_h = 0, bins = [empty_bin]\<rparr>))
   \<and> capacity_ok \<lparr>minsize = 1, length_h = 0, bins = [empty_bin]\<rparr>
   \<and> capacity_ok map_a
   \<and> hashmap_insert calloc_always map_a [98] 3 = Some (Inr (map_ab, 3)) \<and> capacity_ok map_ab
   \<and> hashmap_delete calloc_always map_ab [98] = Some (Inr (map_ab\<lparr>length_h := 1,
         bins := [\<lparr>key = Some [97], val = 1, hash = 177670, psl = 0, keylen = 1\<rparr>,
                  \<lparr>key = None, val = 3, hash = 177671, psl = 0, keylen = 0\<rparr>]\<rparr>, 3))
   \<and> capacity_ok (map_ab\<lparr>length_h := 1,
         bins := [\<lparr>key = Some [97], val = 1, hash = 177670, psl = 0, keylen = 1\<rparr>,
                  \<lparr>key = None, val = 3, hash = 177671, psl = 0, keylen = 0\<rparr>]\<rparr>)
   \<and> hashmap_find map_ab [98] \<noteq> Inl DivisionByZero"
proof -
  have i0: "hashmap_init calloc_always 0 = Some (Inr (Some \<lparr>minsize = 1, length_h = 0, bins = [empty_bin]\<rparr>))"
    by (simp add: eval_defs2)
  have ca: "capacity_ok map_a" by (simp add: capacity_ok_def map_a_def)
  have ins: "hashmap_insert calloc_always map_a [98] 3 = Some (Inr (map_ab, 3))"
    by (simp add: eval_defs2 map_a_def map_ab_def)
  have del: "hashmap_delete calloc_always map_ab [98] = Some (Inr (map_ab\<lparr>length_h := 1,
         bins := [\<lparr>key = Some [97], val = 1, hash = 177670, psl = 0, keylen = 1\<rparr>,
                  \<lparr>key = None, val = 3, hash = 177671, psl = 0, keylen = 0\<rparr>]\<rparr>, 3))"
    by (simp add: eval_defs2 map_ab_def)
  note t = hashmap_capacity_never_zero
  from t [of calloc_always 0 "\<lparr>minsize = 1, length_h = 0, bins = [empty_bin]\<rparr>"] i0
  have c0: "capacity_ok \<lparr>minsize = 1, length_h = 0, bins = [empty_bin]\<rparr>" by blast
  from t [of calloc_always 0 _ map_a "[98]" 3 "Inr (map_ab, 3)"] ca ins
  have cab: "capacity_ok map_ab" by blast
  from t [of calloc_always 0 _ map_ab "[98]" _ "Inr (map_ab\<lparr>length_h := 1,
         bins := [\<lparr>key = Some [97], val = 1, hash = 177670, psl = 0, keylen = 1\<rparr>,
                  \<lparr>key = None, val = 3, hash = 177671, psl = 0, keylen = 0\<rparr>]\<rparr>, 3)"] cab del
  have cd: "capacity_ok (map_ab\<lparr>length_h := 1,
         bins := [\<lparr>key = Some [97], val = 1, hash = 177670, psl = 0, keylen = 1\<rparr>,
                  \<lparr>key = None, val = 3, hash = 177671, psl = 0, keylen = 0\<rparr>]\<rparr>)"
    and nd: "hashmap_find map_ab [98] \<noteq> Inl DivisionByZero" by blast+
  from i0 c0 ca ins cab del cd nd show ?thesis by blast
qed

text \<open>
  C7.  The comment on \<open>hashmap_insert\<close> promises that the table grows "if the new entry
  causes at least 85% of the table size to be consumed", and the claim asks for a resize
  when the insert would push the length past \<open>\<lfloor>capacity * 0.85\<rfloor>\<close>.  The code tests
  \<open>map->length > threshold\<close> with the length \<^emph>\<open>before\<close> the insert.  The table of capacity 4
  holding "a", "b", "c", reached from \<open>hashmap_init(1)\<close>, takes the fourth key "d" without
  resizing, although \<open>3 + 1 > \<lfloor>4 * 0.85\<rfloor> = 3\<close>: afterwards every bin is in use.
\<close>

theorem hashmap_insert_no_upsize_at_threshold:
  "hashmap_insert calloc_always map_ab [99] 5 = Some (Inr (map_abc, 5))
   \<and> length_h map_abc + 1 > length (bins map_abc) * 85 div 100
   \<and> hashmap_insert calloc_always map_abc [100] 7 = Some (Inr (map_abcd, 7))
   \<and> length (bins map_abcd) = length (bins map_abc)
   \<and> length (bins map_abcd) \<noteq> min (length (bins map_abc) * 2) (length (bins map_abc) + 2 ^ 20)
   \<and> length_h map_abcd = length (bins map_abcd)"
  by (simp add: eval_defs2 map_ab_def map_abc_def map_abcd_def)

section \<open>Claims about allocation failure and eviction\<close>

text \<open>
  C8.  \<open>cache_insert\<close> has no out-of-memory result, and it does not look at what
  \<open>hashmap_insert\<close> returns.  With "a" in the cache, the insert of "b" needs a table of two
  bins; when that \<open>calloc\<close> fails, \<open>hashmap_insert\<close> returns \<open>NULL\<close> and \<open>cache_insert\<close>
  still returns 0.  The cache is not the one it was given: \<open>size_c\<close> went from 8 to 16 and
  the recency list has "b" at its head, though "b" is not in the hash index and is not
  found.  From that state \<open>cache_find("a")\<close> followed by an insert of 8 bytes under "c"
  ends in a read through a freed node.  When the heap is exhausted, so that \<open>malloc\<close> in
  \<open>get_block\<close> returns \<open>NULL\<close>, the insert writes through \<open>NULL\<close>.
\<close>

theorem cache_insert_ignores_alloc_failure:
  "length_h map_a > approx_85_percent (length (bins map_a))
   \<and> \<not> calloc_upto 1 (min (length (bins map_a) * 2) (length (bins map_a) + HASHMAP_MAX_GROWTH_STEP))
   \<and> map_c cache_a = Some map_a
   \<and> cache_insert (calloc_upto 1) cache_a [98] (replicate 8 1) = Some (Inr (cache_b_unindexed, 0))
   \<and> cache_b_unindexed \<noteq> cache_a
   \<and> size_c cache_a = 8 \<and> size_c cache_b_unindexed = 16
   \<and> lru_keys cache_a = [[97]] \<and> lru_keys cache_b_unindexed = [[98], [97]]
   \<and> cache_find cache_b_unindexed [98] = Some (Inr (cache_b_unindexed, NULL))
   \<and> then_insert calloc_always [99] (replicate 8 2) (then_find [97] (Some (Inr cache_b_unindexed)))
        = Some (Inl DanglingPointer)
   \<and> cache_insert calloc_always (cache_a\<lparr>brk := NULL\<rparr>) [98] (replicate 8 1)
        = Some (Inl NullDereference)"
proof (intro conjI)
  show "length_h map_a > approx_85_percent (length (bins map_a))"
    by (simp add: map_a_def approx_85_percent_def drop_bit_eq_div)
  show "\<not> calloc_upto 1 (min (length (bins map_a) * 2) (length (bins map_a) + HASHMAP_MAX_GROWTH_STEP))"
    by (simp add: map_a_def calloc_upto_def HASHMAP_MAX_GROWTH_STEP_def)
  show "map_c cache_a = Some map_a" by (simp add: cache_a_def map_a_def)
  show "cache_insert (calloc_upto 1) cache_a [98] (replicate 8 1) = Some (Inr (cache_b_unindexed, 0))"
    by (rule cache_b_unindexed_reached)
  show "size_c cache_a = 8" by (simp add: cache_a_def)
  show s: "size_c cache_b_unindexed = 16" by (simp add: cache_b_unindexed_def)
  show "cache_b_unindexed \<noteq> cache_a"
  proof
    assume "cache_b_unindexed = cache_a"
    then have "size_c cache_b_unindexed = size_c cache_a" by simp
    then show False by (simp add: cache_b_unindexed_def cache_a_def)
  qed
  show "lru_keys cache_a = [[97]]"
    by (simp add: eval_defs3 cache_a_def)
  show "lru_keys cache_b_unindexed = [[98], [97]]"
    by (simp add: eval_defs3 cache_b_unindexed_def)
  show "cache_find cache_b_unindexed [98] = Some (Inr (cache_b_unindexed, NULL))"
    by (simp add: eval_defs2 cache_b_unindexed_def map_a_def)
  show "then_insert calloc_always [99] (replicate 8 2) (then_find [97] (Some (Inr cache_b_unindexed)))
        = Some (Inl DanglingPointer)"
    by (simp add: eval_defs2 cache_b_unindexed_def map_a_def)
  show "cache_insert calloc_always (cache_a\<lparr>brk := NULL\<rparr>) [98] (replicate 8 1)
        = Some (Inl NullDereference)"
    by (simp add: eval_defs2 cache_a_def map_a_def)
qed

text \<open>
  C1.  The code at two concrete runs.  After \<open>cache_init(16)\<close> and inserts of "a" and "b"
  (8 bytes each) the cache is full.  An insert of 16 bytes under "c" must evict both: the
  loop deletes the tail, whose node \<open>cache_delete\<close> frees, and then reads \<open>n->prev\<close> from
  that freed node.  The second run deletes the block at the head of the list: \<open>list_delete\<close>
  leaves \<open>head\<close> pointing to the freed node, and the next insert reads through it.
\<close>

theorem eviction_loop_use_after_free:
  "then_insert calloc_always [98] (replicate 8 1)
     (then_insert calloc_always [97] (replicate 8 0) (cache_init calloc_always 16)) = Some (Inr cache_ab)
   \<and> size_c cache_ab = 16 \<and> max_size cache_ab = 16
   \<and> cache_insert calloc_always cache_ab [99] (replicate 16 2) = Some (Inl DanglingPointer)
   \<and> map_option (map_sum id snd) (cache_delete calloc_always cache_ab 3) = Some (Inr 0)
   \<and> then_insert calloc_always [99] (replicate 8 2) (then_delete calloc_always 3 (Some (Inr cache_ab)))
        = Some (Inl DanglingPointer)"
proof (intro conjI)
  show "then_insert calloc_always [98] (replicate 8 1)
     (then_insert calloc_always [97] (replicate 8 0) (cache_init calloc_always 16)) = Some (Inr cache_ab)"
    by (simp add: cache_a_reached then_insert_def [of _ _ _ "Some (Inr cache_a)"] cache_ab_reached bind_p_def)
  show "size_c cache_ab = 16" "max_size cache_ab = 16"
    by (simp_all add: cache_ab_def)
  show "cache_insert calloc_always cache_ab [99] (replicate 16 2) = Some (Inl DanglingPointer)"
    by (simp add: eval_defs2 cache_ab_def map_ab_def)
  show "map_option (map_sum id snd) (cache_delete calloc_always cache_ab 3) = Some (Inr 0)"
    by (simp add: eval_defs2 cache_ab_def map_ab_def)
  show "then_insert calloc_always [99] (replicate 8 2) (then_delete calloc_always 3 (Some (Inr cache_ab)))
        = Some (Inl DanglingPointer)"
    by (simp add: eval_defs2 cache_ab_def map_ab_def)
qed

section \<open>Claims about the recency order\<close>

text \<open>
  C5.  The scenario of the claim: after the inserts of "a", "b", "c" the order from most
  to least recently used is "c", "b", "a"; \<open>cache_find("a")\<close> makes it "a", "c", "b"; the
  cache is full (30 of 30 bytes), and the insert of "d" (10 bytes) evicts exactly "b": the
  order is "d", "a", "c" and "b" is no longer found.  The general statement fails:
  \<open>list_delete\<close> never moves \<open>head\<close>, so after \<open>cache_delete\<close> of the block at the head of
  the list ("b" in the cache holding "a" and "b") \<open>head\<close> points to the freed node, and
  \<open>cache_find\<close> on the present key "a" reads through it instead of moving "a" to the head.
\<close>

theorem lru_promotion_dangling_head:
  "map_option (map_sum id lru_keys) run_abc = Some (Inr [[99], [98], [97]])
   \<and> map_option (map_sum id lru_keys) (then_find [97] run_abc) = Some (Inr [[97], [99], [98]])
   \<and> map_option (map_sum id (\<lambda>c. (size_c c, max_size c))) (then_find [97] run_abc) = Some (Inr (30, 30))
   \<and> map_option (map_sum id lru_keys)
        (then_insert calloc_always [100] (replicate 10 3) (then_find [97] run_abc))
        = Some (Inr [[100], [97], [99]])
   \<and> map_option (map_sum id snd)
        (bind_p (then_insert calloc_always [100] (replicate 10 3) (then_find [97] run_abc))
           (\<lambda>c. cache_find c [98]))
        = Some (Inr NULL)
   \<and> lru_keys cache_ab = [[98], [97]]
   \<and> hashmap_find map_ab [97] = Inr 1
   \<and> map_option (map_sum id snd) (cache_delete calloc_always cache_ab 3) = Some (Inr 0)
   \<and> map_option (map_sum id (\<lambda>c. map_option (\<lambda>m. hashmap_find m [97]) (map_c c)))
        (then_delete calloc_always 3 (Some (Inr cache_ab))) = Some (Inr (Some (Inr 1)))
   \<and> then_find [97] (then_delete calloc_always 3 (Some (Inr cache_ab))) = Some (Inl DanglingPointer)"
proof (intro conjI)
  show "map_option (map_sum id lru_keys) run_abc = Some (Inr [[99], [98], [97]])"
    by (simp add: run_abc_def eval_defs3)
  show "map_option (map_sum id lru_keys) (then_find [97] run_abc) = Some (Inr [[97], [99], [98]])"
    by (simp add: run_abc_def eval_defs3)
  show "map_option (map_sum id (\<lambda>c. (size_c c, max_size c))) (then_find [97] run_abc) = Some (Inr (30, 30))"
    by (simp add: run_abc_def eval_defs3)
  show "map_option (map_sum id lru_keys)
        (then_insert calloc_always [100] (replicate 10 3) (then_find [97] run_abc))
        = Some (Inr [[100], [97], [99]])"
    by (simp add: run_abc_def eval_defs3)
  show "map_option (map_sum id snd)
        (bind_p (then_insert calloc_always [100] (replicate 10 3) (then_find [97] run_abc))
           (\<lambda>c. cache_find c [98]))
        = Some (Inr NULL)"
    by (simp add: run_abc_def eval_defs3)
  show "lru_keys cache_ab = [[98], [97]]"
    by (simp add: eval_defs3 cache_ab_def)
  show "hashmap_find map_ab [97] = Inr 1"
    by (simp add: eval_defs2 map_ab_def)
  show "map_option (map_sum id snd) (cache_delete calloc_always cache_ab 3) = Some (Inr 0)"
    by (simp add: eval_defs2 cache_ab_def map_ab_def)
  show "map_option (map_sum id (\<lambda>c. map_option (\<lambda>m. hashmap_find m [97]) (map_c c)))
        (then_delete calloc_always 3 (Some (Inr cache_ab))) = Some (Inr (Some (Inr 1)))"
    by (simp add: eval_defs2 cache_ab_def map_ab_def)
  show "then_find [97] (then_delete calloc_always 3 (Some (Inr cache_ab))) = Some (Inl DanglingPointer)"
    by (simp add: eval_defs2 cache_ab_def map_ab_def)
qed

section \<open>Tables with the Robin-Hood layout: stored pairs and updates\<close>

lemma rh_layout_path:
  "rh_layout bs \<longleftrightarrow>
     (\<forall>i<length bs. occupied (bs ! i) \<longrightarrow>
        psl (bs ! i) < length bs \<and> pos (length bs) (ideal (length bs) (bs ! i)) (psl (bs ! i)) = i
        \<and> path_ok bs (bs ! i))"
  by (simp add: rh_layout_def path_ok_def)

lemma nxt_inj:
  assumes "i < n" and "j < n" and "(i + 1) mod n = (j + 1) mod (n :: nat)"
  shows "i = j"
  using pos_inj [of i n j 1] assms by (simp add: pos_def add.commute)

lemma pos_cover:
  assumes "i < n" and "j < n"
  shows "\<exists>d<n. pos n i d = j"
proof (intro exI conjI)
  show "(j + n - i) mod n < n" using assms by simp
  have "(i + (j + n - i) mod n) mod n = (i + (j + n - i)) mod n"
    by (simp add: mod_simps)
  also have "\<dots> = (j + n) mod n" using assms by simp
  also have "\<dots> = j" using assms by simp
  finally show "pos n i ((j + n - i) mod n) = j" by (simp add: pos_def)
qed

lemma pos_self: "i < n \<Longrightarrow> pos n i 0 = i"
  by (simp add: pos_def)

lemma pos_nxt: "pos n ((i + 1) mod n) t = pos n i (t + 1)"
  by (simp add: pos_def mod_simps add.assoc add.commute)

lemma path_ok_update:
  assumes "path_ok bs b" and "occupied x" and "occupied (bs ! i) \<Longrightarrow> psl (bs ! i) \<le> psl x"
  shows "path_ok (bs[i := x]) b"
  unfolding path_ok_def
proof (intro allI impI)
  fix d assume d: "d < psl b"
  let ?q = "pos (length (bs[i := x])) (ideal (length (bs[i := x])) b) d"
  have q: "?q = pos (length bs) (ideal (length bs) b) d" by simp
  from assms(1) d have old: "occupied (bs ! ?q)" "d \<le> psl (bs ! ?q)"
    by (simp_all add: path_ok_def)
  show "occupied (bs[i := x] ! ?q) \<and> d \<le> psl (bs[i := x] ! ?q)"
  proof (cases "?q = i \<and> i < length bs")
    case True
    with old assms(2,3) show ?thesis by auto
  next
    case False
    then have "bs[i := x] ! ?q = bs ! ?q" by (metis nth_list_update_neq list_update_beyond not_less)
    with old show ?thesis by simp
  qed
qed

lemma sum_list_map_update_nat:
  "i < length xs \<Longrightarrow> sum_list (map f (xs[i := x])) + f (xs ! i) = sum_list (map f xs) + (f x :: nat)"
proof (induction xs arbitrary: i)
  case Nil
  then show ?case by simp
next
  case (Cons a xs)
  then show ?case by (cases i) (auto simp: algebra_simps)
qed

lemma occ_count_update:
  "i < length bs \<Longrightarrow>
     occ_count (bs[i := x]) + (if occupied (bs ! i) then 1 else 0) = occ_count bs + (if occupied x then 1 else 0)"
  unfolding occ_count_def by (rule sum_list_map_update_nat)

lemma occ_count_le: "occ_count bs \<le> length bs"
  unfolding occ_count_def by (induction bs) auto

lemma occ_count_full: "(\<forall>j<length bs. occupied (bs ! j)) \<Longrightarrow> occ_count bs = length bs"
  unfolding occ_count_def
proof (induction bs)
  case Nil
  then show ?case by simp
next
  case (Cons a bs)
  from Cons.prems have "occupied a" by (metis length_Cons nth_Cons_0 zero_less_Suc)
  moreover from Cons.prems have "\<forall>j<length bs. occupied (bs ! j)" by (metis Suc_less_eq length_Cons nth_Cons_Suc)
  ultimately show ?case using Cons.IH by simp
qed

lemma empty_bin_exists: "occ_count bs < length bs \<Longrightarrow> \<exists>j<length bs. \<not> occupied (bs ! j)"
  using occ_count_full by fastforce

lemma kvs_iff: "(kb, v) \<in> kvs bs \<longleftrightarrow> (\<exists>j<length bs. key (bs ! j) = Some kb \<and> val (bs ! j) = v)"
  unfolding kvs_def by auto

lemma keys_of_iff: "kb \<in> keys_of bs \<longleftrightarrow> (\<exists>j<length bs. key (bs ! j) = Some kb)"
  unfolding keys_of_def by auto

lemma kvs_update_iff:
  assumes "i < length bs"
  shows "(kb, v) \<in> kvs (bs[i := x]) \<longleftrightarrow>
     (key x = Some kb \<and> val x = v) \<or> (\<exists>j<length bs. j \<noteq> i \<and> key (bs ! j) = Some kb \<and> val (bs ! j) = v)"
proof
  assume "(kb, v) \<in> kvs (bs[i := x])"
  then obtain j where j: "j < length bs" "key (bs[i := x] ! j) = Some kb" "val (bs[i := x] ! j) = v"
    by (auto simp: kvs_iff)
  show "(key x = Some kb \<and> val x = v) \<or> (\<exists>j<length bs. j \<noteq> i \<and> key (bs ! j) = Some kb \<and> val (bs ! j) = v)"
  proof (cases "j = i")
    case True
    with j assms show ?thesis by simp
  next
    case False
    with j show ?thesis by auto
  qed
next
  assume "(key x = Some kb \<and> val x = v) \<or> (\<exists>j<length bs. j \<noteq> i \<and> key (bs ! j) = Some kb \<and> val (bs ! j) = v)"
  then show "(kb, v) \<in> kvs (bs[i := x])"
  proof
    assume "key x = Some kb \<and> val x = v"
    with assms have "i < length (bs[i := x]) \<and> key (bs[i := x] ! i) = Some kb \<and> val (bs[i := x] ! i) = v"
      by simp
    then show ?thesis unfolding kvs_iff by blast
  next
    assume "\<exists>j<length bs. j \<noteq> i \<and> key (bs ! j) = Some kb \<and> val (bs ! j) = v"
    then obtain j where "j < length bs" "j \<noteq> i" "key (bs ! j) = Some kb" "val (bs ! j) = v" by blast
    then have "j < length (bs[i := x]) \<and> key (bs[i := x] ! j) = Some kb \<and> val (bs[i := x] ! j) = v"
      by simp
    then show ?thesis unfolding kvs_iff by blast
  qed
qed

lemma kvs_split_iff:
  assumes "i < length bs"
  shows "(kb, v) \<in> kvs bs \<longleftrightarrow>
     (key (bs ! i) = Some kb \<and> val (bs ! i) = v) \<or> (\<exists>j<length bs. j \<noteq> i \<and> key (bs ! j) = Some kb \<and> val (bs ! j) = v)"
  using assms unfolding kvs_iff by metis

lemma keys_of_kvs: "keys_of bs = fst ` kvs bs"
  unfolding keys_of_def kvs_def by force

lemma table_inv_update:
  assumes inv: "table_inv bs" and i: "i < length bs"
    and e: "occupied e" "bin_wf e" "psl e < length bs"
           "pos (length bs) (ideal (length bs) e) (psl e) = i" "path_ok bs e"
    and fresh: "\<forall>j<length bs. key (bs ! j) \<noteq> key e"
    and rich: "occupied (bs ! i) \<Longrightarrow> psl (bs ! i) \<le> psl e"
  shows "table_inv (bs[i := e])"
  unfolding table_inv_def
proof (intro conjI)
  show "bs[i := e] \<noteq> []" using inv by (simp add: table_inv_def)
  show "\<forall>b\<in>set (bs[i := e]). bin_wf b"
    using inv e(2) set_update_subset_insert [of bs i e] by (auto simp: table_inv_def)
  from inv have lay: "rh_layout bs" and dk: "distinct_keys bs" by (simp_all add: table_inv_def)
  show "rh_layout (bs[i := e])"
    unfolding rh_layout_path
  proof (intro allI impI)
    fix t assume t: "t < length (bs[i := e])" and o: "occupied (bs[i := e] ! t)"
    show "psl (bs[i := e] ! t) < length (bs[i := e])
        \<and> pos (length (bs[i := e])) (ideal (length (bs[i := e])) (bs[i := e] ! t)) (psl (bs[i := e] ! t)) = t
        \<and> path_ok (bs[i := e]) (bs[i := e] ! t)"
    proof (cases "t = i")
      case True
      with i e path_ok_update [OF e(5) e(1) rich] show ?thesis by simp
    next
      case False
      with t o have ot: "occupied (bs ! t)" and tt: "t < length bs" by simp_all
      with lay have "psl (bs ! t) < length bs" "pos (length bs) (ideal (length bs) (bs ! t)) (psl (bs ! t)) = t"
        "path_ok bs (bs ! t)" by (simp_all add: rh_layout_path)
      with False path_ok_update [OF _ e(1) rich, of "bs ! t"] show ?thesis by simp
    qed
  qed
  show "distinct_keys (bs[i := e])"
    unfolding distinct_keys_def
  proof (intro allI impI)
    fix a b
    assume a: "a < length (bs[i := e])" and b: "b < length (bs[i := e])"
      and h: "occupied (bs[i := e] ! a) \<and> key (bs[i := e] ! a) = key (bs[i := e] ! b)"
    show "a = b"
    proof (cases "a = i"; cases "b = i")
      assume "a = i" "b = i" then show ?thesis by simp
    next
      assume "a = i" "b \<noteq> i"
      with h i b fresh show ?thesis by (auto simp: nth_list_update)
    next
      assume "a \<noteq> i" "b = i"
      with h i a fresh show ?thesis by (auto simp: nth_list_update)
    next
      assume "a \<noteq> i" "b \<noteq> i"
      with h a b dk show ?thesis unfolding distinct_keys_def by (auto simp: nth_list_update)
    qed
  qed
qed

section \<open>The displacement loop of \<open>hashmap_insert_no_resize\<close>\<close>

lemma psl_update_simps [simp]:
  "ideal n (b\<lparr>psl := x\<rparr>) = ideal n b"
  "occupied (b\<lparr>psl := x\<rparr>) = occupied b"
  "bin_wf (b\<lparr>psl := x\<rparr>) = bin_wf b"
  by (simp_all add: ideal_def occupied_def bin_wf_def split: option.splits)

lemma pos_nxt': "pos n (Suc i mod n) t = pos n i (Suc t)"
  using pos_nxt [of n i t] by simp

lemma ideal_less: "0 < n \<Longrightarrow> ideal n b < n"
  by (simp add: ideal_def)

lemma carry_psl_less:
  assumes "carry_ok bs e i" and "j < length bs" and "\<not> occupied (bs ! j)"
  shows "psl e < length bs"
proof (rule ccontr)
  assume a: "\<not> psl e < length bs"
  let ?n = "length bs"
  have n: "0 < ?n" using assms(2) by (cases bs) simp_all
  from pos_cover [OF ideal_less [OF n] assms(2)] obtain d where d: "d < ?n" "pos ?n (ideal ?n e) d = j"
    by blast
  with a have "d < psl e" by simp
  with assms(1) d(2) have "occupied (bs ! j)" by (auto simp: carry_ok_def path_ok_def)
  with assms(3) show False ..
qed

lemma carry_step_swap:
  assumes inv: "table_inv bs" and i: "i < length bs" and c: "carry_ok bs e i"
    and o: "occupied (bs ! i)" and r: "psl (bs ! i) < psl e"
  shows "carry_ok (bs[i := e]) ((bs ! i)\<lparr>psl := psl (bs ! i) + 1\<rparr>) ((i + 1) mod length bs)"
proof -
  let ?n = "length bs" and ?b = "bs ! i"
  from inv i o have lay: "pos ?n (ideal ?n ?b) (psl ?b) = i" "path_ok bs ?b"
    by (simp_all add: table_inv_def rh_layout_path)
  from inv i have wf: "bin_wf ?b" by (simp add: table_inv_def)
  from c have oe: "occupied e" by (simp add: carry_ok_def)
  have p1: "path_ok (bs[i := e]) ?b"
    using path_ok_update [OF lay(2) oe] r by simp
  have "path_ok (bs[i := e]) (?b\<lparr>psl := psl ?b + 1\<rparr>)"
    unfolding path_ok_def
  proof (intro allI impI)
    fix d assume "d < psl (?b\<lparr>psl := psl ?b + 1\<rparr>)"
    then have "d < psl ?b \<or> d = psl ?b" by auto
    then show "occupied (bs[i := e] ! pos (length (bs[i := e])) (ideal (length (bs[i := e])) (?b\<lparr>psl := psl ?b + 1\<rparr>)) d)
        \<and> d \<le> psl (bs[i := e] ! pos (length (bs[i := e])) (ideal (length (bs[i := e])) (?b\<lparr>psl := psl ?b + 1\<rparr>)) d)"
    proof
      assume "d < psl ?b"
      with p1 show ?thesis by (simp add: path_ok_def)
    next
      assume "d = psl ?b"
      with lay(1) i oe r show ?thesis by simp
    qed
  qed
  moreover have "pos ?n (ideal ?n ?b) (psl ?b + 1) = (i + 1) mod ?n"
    using pos_Suc [of ?n "ideal ?n ?b" "psl ?b"] lay(1) by simp
  ultimately show ?thesis
    using o wf by (simp add: carry_ok_def)
qed

lemma carry_step_keep:
  assumes i: "i < length bs" and c: "carry_ok bs e i"
    and o: "occupied (bs ! i)" and r: "\<not> psl (bs ! i) < psl e"
  shows "carry_ok bs (e\<lparr>psl := psl e + 1\<rparr>) ((i + 1) mod length bs)"
proof -
  let ?n = "length bs"
  from c have ce: "occupied e" "bin_wf e" "pos ?n (ideal ?n e) (psl e) = i" "path_ok bs e"
    by (simp_all add: carry_ok_def)
  have "path_ok bs (e\<lparr>psl := psl e + 1\<rparr>)"
    unfolding path_ok_def
  proof (intro allI impI)
    fix d assume "d < psl (e\<lparr>psl := psl e + 1\<rparr>)"
    then have "d < psl e \<or> d = psl e" by auto
    then show "occupied (bs ! pos ?n (ideal ?n (e\<lparr>psl := psl e + 1\<rparr>)) d)
        \<and> d \<le> psl (bs ! pos ?n (ideal ?n (e\<lparr>psl := psl e + 1\<rparr>)) d)"
    proof
      assume "d < psl e"
      with ce(4) show ?thesis by (simp add: path_ok_def)
    next
      assume "d = psl e"
      with ce(3) o r show ?thesis by simp
    qed
  qed
  moreover have "pos ?n (ideal ?n e) (psl e + 1) = (i + 1) mod ?n"
    using pos_Suc [of ?n "ideal ?n e" "psl e"] ce(3) by simp
  ultimately show ?thesis
    using ce by (simp add: carry_ok_def)
qed

lemma pos_shift_neq:
  assumes "i < n" and "t + 1 < n"
  shows "pos n ((i + 1) mod n) t \<noteq> i"
proof
  assume "pos n ((i + 1) mod n) t = i"
  then have "pos n i (t + 1) = pos n i 0" using assms(1) by (simp add: pos_nxt' pos_self)
  from pos_inj [OF assms(2) _ this] assms show False by simp
qed

lemma insert_loop_places:
  assumes "table_inv bs" and "i < length bs" and "carry_ok bs e i"
    and "\<forall>j<length bs. key (bs ! j) \<noteq> key e"
    and "g < length bs" and "\<not> occupied (bs ! pos (length bs) i g)"
    and "\<forall>t<g. occupied (bs ! pos (length bs) i t) \<and> \<not> bin_matches (bs ! pos (length bs) i t) h k"
  shows "\<exists>bs'. insert_loop bs h k v e i = Some (Inr (bs', True)) \<and> table_inv bs'
     \<and> length bs' = length bs
     \<and> (\<forall>kb x. (kb, x) \<in> kvs bs' \<longleftrightarrow> (kb, x) \<in> kvs bs \<or> (key e = Some kb \<and> val e = x))
     \<and> occ_count bs' = occ_count bs + 1"
  using assms
proof (induction g arbitrary: bs e i)
  case 0
  let ?n = "length bs"
  from "0.prems" have emp: "\<not> occupied (bs ! i)" by (simp add: pos_self)
  from carry_psl_less [OF "0.prems"(3,2) emp] have pl: "psl e < ?n" .
  from "0.prems"(3) have ce: "occupied e" "bin_wf e" "pos ?n (ideal ?n e) (psl e) = i" "path_ok bs e"
    by (simp_all add: carry_ok_def)
  have run: "insert_loop bs h k v e i = Some (Inr (bs[i := e], True))"
    using "0.prems"(2) emp by (subst insert_loop.simps) (simp add: occupied_def)
  have inv': "table_inv (bs[i := e])"
    using table_inv_update [OF "0.prems"(1,2) ce(1,2) pl ce(3,4) "0.prems"(4)] emp by simp
  have kv: "(kb, x) \<in> kvs (bs[i := e]) \<longleftrightarrow> (kb, x) \<in> kvs bs \<or> (key e = Some kb \<and> val e = x)" for kb x
    using emp unfolding kvs_update_iff [OF "0.prems"(2)] kvs_split_iff [OF "0.prems"(2)]
    by (auto simp: occupied_def)
  have oc: "occ_count (bs[i := e]) = occ_count bs + 1"
    using occ_count_update [OF "0.prems"(2), of e] emp ce(1) by simp
  from run inv' kv oc show ?case by simp
next
  case (Suc g)
  let ?n = "length bs" and ?b = "bs ! i"
  let ?i1 = "(i + 1) mod ?n"
  note i = "Suc.prems"(2)
  from "Suc.prems"(7) have o: "occupied ?b" and nm: "\<not> bin_matches ?b h k"
    using i by (auto simp: pos_self dest: spec [of _ 0])
  have n: "0 < ?n" using i by (cases bs) simp_all
  have i1: "?i1 < ?n" using n by (rule mod_less_divisor)
  have gl: "g < ?n" using "Suc.prems"(5) by simp
  have jn: "pos ?n i (Suc g) < ?n" using n by (rule pos_less)
  from carry_psl_less [OF "Suc.prems"(3) jn "Suc.prems"(6)] have pl: "psl e < ?n" .
  from "Suc.prems"(3) have ce: "occupied e" "bin_wf e" "pos ?n (ideal ?n e) (psl e) = i" "path_ok bs e"
    by (simp_all add: carry_ok_def)
  have far: "pos ?n ?i1 t \<noteq> i" if "t \<le> g" for t
    using pos_shift_neq [OF i, of t] that "Suc.prems"(5) by simp
  show ?case
  proof (cases "psl ?b < psl e")
    case True
    let ?bs1 = "bs[i := e]" and ?e1 = "?b\<lparr>psl := psl ?b + 1\<rparr>"
    have run: "insert_loop bs h k v e i = insert_loop ?bs1 h k v ?e1 ?i1"
      using i o nm True by (subst insert_loop.simps) (simp add: occupied_def)
    have inv1: "table_inv ?bs1"
      using table_inv_update [OF "Suc.prems"(1) i ce(1,2) pl ce(3,4) "Suc.prems"(4)] True by simp
    have c1: "carry_ok ?bs1 ?e1 ?i1"
      using carry_step_swap [OF "Suc.prems"(1) i "Suc.prems"(3) o True] by simp
    from "Suc.prems"(1) have dk: "distinct_keys bs" by (simp add: table_inv_def)
    have fresh1: "\<forall>j<length ?bs1. key (?bs1 ! j) \<noteq> key ?e1"
    proof (intro allI impI)
      fix j assume j: "j < length ?bs1"
      show "key (?bs1 ! j) \<noteq> key ?e1"
      proof (cases "j = i")
        case True
        with i "Suc.prems"(4) show ?thesis by auto
      next
        case False
        with dk o i j have "key ?b \<noteq> key (bs ! j)" unfolding distinct_keys_def by auto
        with False show ?thesis by simp
      qed
    qed
    have emp1: "\<not> occupied (?bs1 ! pos (length ?bs1) ?i1 g)"
      using far [of g] "Suc.prems"(6) by (simp add: pos_nxt')
    have occ1: "\<forall>t<g. occupied (?bs1 ! pos (length ?bs1) ?i1 t) \<and> \<not> bin_matches (?bs1 ! pos (length ?bs1) ?i1 t) h k"
    proof (intro allI impI)
      fix t assume t: "t < g"
      with far [of t] have "?bs1 ! pos ?n ?i1 t = bs ! pos ?n i (t + 1)" by (simp add: pos_nxt')
      with "Suc.prems"(7) t show "occupied (?bs1 ! pos (length ?bs1) ?i1 t) \<and> \<not> bin_matches (?bs1 ! pos (length ?bs1) ?i1 t) h k"
        by simp
    qed
    from Suc.IH [OF inv1 _ c1 fresh1 _ emp1 occ1] i1 gl
    obtain bs' where r: "insert_loop ?bs1 h k v ?e1 ?i1 = Some (Inr (bs', True))" "table_inv bs'"
      "length bs' = ?n"
      "\<forall>kb x. (kb, x) \<in> kvs bs' \<longleftrightarrow> (kb, x) \<in> kvs ?bs1 \<or> (key ?e1 = Some kb \<and> val ?e1 = x)"
      "occ_count bs' = occ_count ?bs1 + 1"
      by auto
    have kv: "(kb, x) \<in> kvs bs' \<longleftrightarrow> (kb, x) \<in> kvs bs \<or> (key e = Some kb \<and> val e = x)" for kb x
      unfolding r(4) [rule_format] kvs_update_iff [OF i] kvs_split_iff [OF i] by auto
    have oc: "occ_count ?bs1 = occ_count bs"
      using occ_count_update [OF i, of e] o ce(1) by simp
    from run r kv oc show ?thesis by simp
  next
    case False
    let ?e1 = "e\<lparr>psl := psl e + 1\<rparr>"
    have run: "insert_loop bs h k v e i = insert_loop bs h k v ?e1 ?i1"
      using i o nm False by (subst insert_loop.simps) (simp add: occupied_def)
    have c1: "carry_ok bs ?e1 ?i1"
      using carry_step_keep [OF i "Suc.prems"(3) o False] .
    have fresh1: "\<forall>j<length bs. key (bs ! j) \<noteq> key ?e1"
      using "Suc.prems"(4) by simp
    have emp1: "\<not> occupied (bs ! pos ?n ?i1 g)"
      using "Suc.prems"(6) by (simp add: pos_nxt')
    have occ1: "\<forall>t<g. occupied (bs ! pos ?n ?i1 t) \<and> \<not> bin_matches (bs ! pos ?n ?i1 t) h k"
      using "Suc.prems"(7) by (simp add: pos_nxt')
    from Suc.IH [OF "Suc.prems"(1) i1 c1 fresh1 gl emp1 occ1] run show ?thesis
      by simp
  qed
qed

section \<open>Inserting an absent key; \<open>hashmap_resize\<close>\<close>

lemma gap_exists:
  assumes "i < length bs" and "j < length bs" and "\<not> occupied (bs ! j)"
  shows "\<exists>g<length bs. \<not> occupied (bs ! pos (length bs) i g)
          \<and> (\<forall>t<g. occupied (bs ! pos (length bs) i t))"
proof -
  let ?n = "length bs"
  define P where "P d \<longleftrightarrow> \<not> occupied (bs ! pos ?n i d)" for d
  from pos_cover [OF assms(1,2)] obtain d where d: "d < ?n" "pos ?n i d = j" by blast
  with assms(3) have Pd: "P d" by (simp add: P_def)
  define g where "g = (LEAST d. P d)"
  have Pg: "P g" unfolding g_def using Pd by (rule LeastI)
  have gd: "g \<le> d" unfolding g_def using Pd by (rule Least_le)
  have below: "\<not> P t" if "t < g" for t
    using that unfolding g_def by (rule not_less_Least)
  have "g < ?n" using gd d(1) by simp
  moreover have "\<not> occupied (bs ! pos ?n i g)" using Pg by (simp add: P_def)
  moreover have "\<forall>t<g. occupied (bs ! pos ?n i t)" using below by (simp add: P_def)
  ultimately show ?thesis by blast
qed

lemma absent_no_match:
  assumes "bin_wf b" and "occupied b" and "key b \<noteq> Some k"
  shows "\<not> bin_matches b h k"
  using assms by (auto simp: bin_matches_def bin_wf_def occupied_def split: option.splits)

lemma hashmap_insert_no_resize_absent:
  assumes inv: "table_inv (bins m)" and ab: "k \<notin> keys_of (bins m)"
    and room: "occ_count (bins m) < length (bins m)"
  shows "\<exists>m'. hashmap_insert_no_resize m k v = Some (Inr (m', v)) \<and> table_inv (bins m')
     \<and> length (bins m') = length (bins m) \<and> minsize m' = minsize m
     \<and> kvs (bins m') = insert (k, v) (kvs (bins m))
     \<and> occ_count (bins m') = occ_count (bins m) + 1
     \<and> length_h m' = length_h m + 1"
proof -
  let ?bs = "bins m" and ?n = "length (bins m)"
  let ?e = "\<lparr>key = Some k, val = v, hash = get_hash k, psl = 0, keylen = length k\<rparr>"
  let ?i = "unat (get_hash k) mod ?n"
  from inv have ne: "?bs \<noteq> []" and wf: "\<forall>b\<in>set ?bs. bin_wf b" by (simp_all add: table_inv_def)
  then have n: "0 < ?n" by simp
  then have i: "?i < ?n" by (rule mod_less_divisor)
  from empty_bin_exists [OF room] obtain j where j: "j < ?n" "\<not> occupied (?bs ! j)" by blast
  from gap_exists [OF i j] obtain g where g: "g < ?n" "\<not> occupied (?bs ! pos ?n ?i g)"
    "\<forall>t<g. occupied (?bs ! pos ?n ?i t)" by blast
  have c: "carry_ok ?bs ?e ?i"
    by (simp add: carry_ok_def occupied_def bin_wf_def path_ok_def ideal_def pos_def)
  have fresh: "\<forall>j<?n. key (?bs ! j) \<noteq> key ?e"
    using ab by (auto simp: keys_of_iff)
  have nm: "\<forall>t<g. occupied (?bs ! pos ?n ?i t) \<and> \<not> bin_matches (?bs ! pos ?n ?i t) (get_hash k) k"
  proof (intro allI impI)
    fix t assume t: "t < g"
    let ?q = "pos ?n ?i t"
    have q: "?q < ?n" using n by (rule pos_less)
    with wf have "bin_wf (?bs ! ?q)" by simp
    moreover from g(3) t have "occupied (?bs ! ?q)" by simp
    moreover from ab q have "key (?bs ! ?q) \<noteq> Some k" by (auto simp: keys_of_iff)
    ultimately show "occupied (?bs ! ?q) \<and> \<not> bin_matches (?bs ! ?q) (get_hash k) k"
      using absent_no_match by blast
  qed
  from insert_loop_places [OF inv i c fresh g(1,2) nm, of v]
  obtain bs' where r: "insert_loop ?bs (get_hash k) k v ?e ?i = Some (Inr (bs', True))" "table_inv bs'"
    "length bs' = ?n" "\<forall>kb x. (kb, x) \<in> kvs bs' \<longleftrightarrow> (kb, x) \<in> kvs ?bs \<or> (key ?e = Some kb \<and> val ?e = x)"
    "occ_count bs' = occ_count ?bs + 1"
    by blast
  have kv: "kvs bs' = insert (k, v) (kvs ?bs)"
    using r(4) by auto
  have "hashmap_insert_no_resize m k v
      = Some (Inr (m\<lparr>bins := bs', length_h := length_h m + 1\<rparr>, v))"
    using r(1) ne by (simp add: hashmap_insert_no_resize_def)
  with r(2,3,5) kv show ?thesis
    by simp
qed

lemma kvs_Cons:
  "kvs (b # bs) = (case key b of None \<Rightarrow> {} | Some kb \<Rightarrow> {(kb, val b)}) \<union> kvs bs"
proof -
  have "(kb, x) \<in> kvs (b # bs) \<longleftrightarrow> (key b = Some kb \<and> val b = x) \<or> (kb, x) \<in> kvs bs" for kb x
  proof
    assume "(kb, x) \<in> kvs (b # bs)"
    then obtain j where j: "j < Suc (length bs)" "key ((b # bs) ! j) = Some kb" "val ((b # bs) ! j) = x"
      by (auto simp: kvs_iff)
    then show "(key b = Some kb \<and> val b = x) \<or> (kb, x) \<in> kvs bs"
      by (cases j) (auto simp: kvs_iff)
  next
    assume "(key b = Some kb \<and> val b = x) \<or> (kb, x) \<in> kvs bs"
    then show "(kb, x) \<in> kvs (b # bs)"
    proof
      assume "key b = Some kb \<and> val b = x"
      then have "0 < length (b # bs) \<and> key ((b # bs) ! 0) = Some kb \<and> val ((b # bs) ! 0) = x" by simp
      then show ?thesis unfolding kvs_iff by blast
    next
      assume "(kb, x) \<in> kvs bs"
      then obtain j where "j < length bs" "key (bs ! j) = Some kb" "val (bs ! j) = x" by (auto simp: kvs_iff)
      then have "Suc j < length (b # bs) \<and> key ((b # bs) ! Suc j) = Some kb \<and> val ((b # bs) ! Suc j) = x"
        by simp
      then show ?thesis unfolding kvs_iff by blast
    qed
  qed
  then show ?thesis by (auto split: option.splits)
qed

lemma distinct_keys_Cons:
  assumes "distinct_keys (b # bs)"
  shows "distinct_keys bs" and "key b = Some kb \<Longrightarrow> kb \<notin> keys_of bs"
proof -
  show "distinct_keys bs"
    unfolding distinct_keys_def
  proof (intro allI impI)
    fix i j assume "i < length bs" "j < length bs" "occupied (bs ! i) \<and> key (bs ! i) = key (bs ! j)"
    then have "Suc i < length (b # bs)" "Suc j < length (b # bs)"
      "occupied ((b # bs) ! Suc i) \<and> key ((b # bs) ! Suc i) = key ((b # bs) ! Suc j)" by simp_all
    with assms have "Suc i = Suc j" unfolding distinct_keys_def by blast
    then show "i = j" by simp
  qed
  show "kb \<notin> keys_of bs" if "key b = Some kb"
  proof
    assume "kb \<in> keys_of bs"
    then obtain j where "j < length bs" "key (bs ! j) = Some kb" by (auto simp: keys_of_iff)
    with that have "0 < length (b # bs)" "Suc j < length (b # bs)"
      "occupied ((b # bs) ! 0) \<and> key ((b # bs) ! 0) = key ((b # bs) ! Suc j)"
      by (simp_all add: occupied_def)
    with assms have "0 = Suc j" unfolding distinct_keys_def by blast
    then show False by simp
  qed
qed

lemma reinsert_correct:
  assumes "table_inv (bins m)" and "length_h m = occ_count (bins m)"
    and "\<forall>b\<in>set old. bin_wf b" and "distinct_keys old"
    and "keys_of old \<inter> keys_of (bins m) = {}"
    and "occ_count (bins m) + occ_count old \<le> length (bins m)"
  shows "\<exists>m'. reinsert old m = Some (Inr m') \<and> table_inv (bins m')
     \<and> length_h m' = occ_count (bins m') \<and> length (bins m') = length (bins m)
     \<and> minsize m' = minsize m \<and> kvs (bins m') = kvs (bins m) \<union> kvs old
     \<and> occ_count (bins m') = occ_count (bins m) + occ_count old"
  using assms
proof (induction old arbitrary: m)
  case Nil
  then show ?case by (simp add: kvs_def occ_count_def)
next
  case (Cons b old)
  from distinct_keys_Cons [OF Cons.prems(4)] have dk: "distinct_keys old"
    and nk: "\<And>kb. key b = Some kb \<Longrightarrow> kb \<notin> keys_of old" by blast+
  have sub: "keys_of old \<subseteq> keys_of (b # old)"
  proof
    fix kb assume "kb \<in> keys_of old"
    then obtain j where "j < length old" "key (old ! j) = Some kb" by (auto simp: keys_of_iff)
    then have "Suc j < length (b # old) \<and> key ((b # old) ! Suc j) = Some kb" by simp
    then show "kb \<in> keys_of (b # old)" unfolding keys_of_iff by blast
  qed
  show ?case
  proof (cases "key b")
    case None
    then have e1: "occ_count (b # old) = occ_count old" and e2: "kvs (b # old) = kvs old"
      by (simp_all add: occ_count_def occupied_def kvs_Cons)
    have dj: "keys_of old \<inter> keys_of (bins m) = {}" using sub Cons.prems(5) by blast
    have wf: "\<forall>b\<in>set old. bin_wf b" using Cons.prems(3) by simp
    have rm: "occ_count (bins m) + occ_count old \<le> length (bins m)" using Cons.prems(6) e1 by simp
    have "reinsert (b # old) m = reinsert old m" using None by simp
    with Cons.IH [OF Cons.prems(1,2) wf dk dj rm] show ?thesis
      unfolding e1 e2 by simp
  next
    case (Some kb)
    from Cons.prems(3) Some have kl: "take (keylen b) kb = kb" by (simp add: bin_wf_def)
    have oc: "occ_count (b # old) = occ_count old + 1"
      using Some by (simp add: occ_count_def occupied_def)
    have "kb \<in> keys_of (b # old)" using Some by (auto simp: keys_of_iff)
    with Cons.prems(5) have ab: "kb \<notin> keys_of (bins m)" by blast
    have room: "occ_count (bins m) < length (bins m)" using Cons.prems(6) oc by simp
    from hashmap_insert_no_resize_absent [OF Cons.prems(1) ab room, of "val b"]
    obtain m1 where m1: "hashmap_insert_no_resize m kb (val b) = Some (Inr (m1, val b))"
      "table_inv (bins m1)" "length (bins m1) = length (bins m)" "minsize m1 = minsize m"
      "kvs (bins m1) = insert (kb, val b) (kvs (bins m))"
      "occ_count (bins m1) = occ_count (bins m) + 1" "length_h m1 = length_h m + 1"
      by blast
    have l1: "length_h m1 = occ_count (bins m1)" using m1(6,7) Cons.prems(2) by simp
    have k1: "keys_of (bins m1) = insert kb (keys_of (bins m))"
      using m1(5) by (simp add: keys_of_kvs)
    have dj0: "keys_of old \<inter> keys_of (bins m) = {}" using sub Cons.prems(5) by blast
    have dj: "keys_of old \<inter> keys_of (bins m1) = {}"
      unfolding k1 using nk [OF Some] dj0 by simp
    have rm: "occ_count (bins m1) + occ_count old \<le> length (bins m1)"
      using m1(3,6) Cons.prems(6) oc by simp
    have wf: "\<forall>b\<in>set old. bin_wf b" using Cons.prems(3) by simp
    from Cons.IH [OF m1(2) l1 wf dk dj rm]
    obtain m' where m': "reinsert old m1 = Some (Inr m')" "table_inv (bins m')"
      "length_h m' = occ_count (bins m')" "length (bins m') = length (bins m1)"
      "minsize m' = minsize m1" "kvs (bins m') = kvs (bins m1) \<union> kvs old"
      "occ_count (bins m') = occ_count (bins m1) + occ_count old"
      by blast
    have run: "reinsert (b # old) m = Some (Inr m')"
      using Some kl m1(1) m'(1) by simp
    have kv: "kvs (bins m') = kvs (bins m) \<union> kvs (b # old)"
      unfolding m'(6) m1(5) kvs_Cons using Some by simp
    have c: "occ_count (bins m') = occ_count (bins m) + occ_count (b # old)"
      unfolding m'(7) m1(6) oc by simp
    show ?thesis
    proof (intro exI [of _ m'] conjI)
      show "reinsert (b # old) m = Some (Inr m')" by (rule run)
      show "table_inv (bins m')" by (rule m'(2))
      show "length_h m' = occ_count (bins m')" by (rule m'(3))
      show "length (bins m') = length (bins m)" using m'(4) m1(3) by simp
      show "minsize m' = minsize m" using m'(5) m1(4) by simp
      show "kvs (bins m') = kvs (bins m) \<union> kvs (b # old)" by (rule kv)
      show "occ_count (bins m') = occ_count (bins m) + occ_count (b # old)" by (rule c)
    qed
  qed
qed

lemma table_inv_replicate: "0 < n \<Longrightarrow> table_inv (replicate n empty_bin)"
  by (auto simp: table_inv_def rh_layout_def distinct_keys_def bin_wf_def occupied_def empty_bin_def)

lemma kvs_replicate_empty: "kvs (replicate n empty_bin) = {}"
  by (auto simp: kvs_def empty_bin_def)

lemma occ_count_replicate_empty: "occ_count (replicate n empty_bin) = 0"
  by (simp add: occ_count_def occupied_def empty_bin_def)

lemma hashmap_resize_correct:
  assumes "\<forall>b\<in>set (bins m). bin_wf b" and "distinct_keys (bins m)"
    and "occ_count (bins m) \<le> n" and "0 < n" and "n \<le> HASHMAP_MAX" and "calloc_ok n"
  shows "\<exists>m'. hashmap_resize calloc_ok m n = Some (Inr (m', 0)) \<and> table_inv (bins m')
     \<and> length_h m' = occ_count (bins m') \<and> length (bins m') = n \<and> minsize m' = minsize m
     \<and> kvs (bins m') = kvs (bins m) \<and> occ_count (bins m') = occ_count (bins m)"
proof -
  let ?m0 = "m\<lparr>bins := replicate n empty_bin, length_h := 0\<rparr>"
  have "\<exists>m'. reinsert (bins m) ?m0 = Some (Inr m') \<and> table_inv (bins m')
     \<and> length_h m' = occ_count (bins m') \<and> length (bins m') = length (bins ?m0)
     \<and> minsize m' = minsize ?m0 \<and> kvs (bins m') = kvs (bins ?m0) \<union> kvs (bins m)
     \<and> occ_count (bins m') = occ_count (bins ?m0) + occ_count (bins m)"
    using assms
    by (intro reinsert_correct)
       (simp_all add: table_inv_replicate occ_count_replicate_empty keys_of_kvs kvs_replicate_empty)
  then show ?thesis
    using assms(5,6)
    by (auto simp: hashmap_resize_def kvs_replicate_empty occ_count_replicate_empty)
qed

section \<open>\<open>hashmap_insert\<close> of an absent key\<close>

lemma approx_85_less: "0 < n \<Longrightarrow> approx_85_percent n < n"
  by (simp add: approx_85_percent_def drop_bit_eq_div)

lemma approx_40_half: "approx_40_percent n \<le> n div 2"
  by (simp add: approx_40_percent_def drop_bit_eq_div)

lemma hashmap_insert_absent:
  assumes inv: "hm_inv m" and ab: "k \<notin> keys_of (bins m)"
    and cap: "length (bins m) * 2 \<le> HASHMAP_MAX" and al: "\<forall>n\<le>HASHMAP_MAX. calloc_ok n"
  shows "\<exists>m'. hashmap_insert calloc_ok m k v = Some (Inr (m', v)) \<and> hm_inv m'
     \<and> kvs (bins m') = insert (k, v) (kvs (bins m))"
proof -
  let ?n = "length (bins m)"
  from inv have ti: "table_inv (bins m)" and lh: "length_h m = occ_count (bins m)"
    and ms: "1 \<le> minsize m" "minsize m \<le> ?n" by (simp_all add: hm_inv_def)
  have n: "0 < ?n" using ms by (cases "bins m") simp_all
  show ?thesis
  proof (cases "length_h m > approx_85_percent ?n")
    case False
    then have room: "occ_count (bins m) < ?n" using approx_85_less [OF n] lh by simp
    from hashmap_insert_no_resize_absent [OF ti ab room, of v]
    obtain m' where m': "hashmap_insert_no_resize m k v = Some (Inr (m', v))" "table_inv (bins m')"
      "length (bins m') = ?n" "minsize m' = minsize m"
      "kvs (bins m') = insert (k, v) (kvs (bins m))"
      "occ_count (bins m') = occ_count (bins m) + 1" "length_h m' = length_h m + 1"
      by blast
    have run: "hashmap_insert calloc_ok m k v = Some (Inr (m', v))"
      using False m'(1) by (simp add: hashmap_insert_def Let_def)
    have "hm_inv m'" using m'(2,3,4,6,7) lh ms by (simp add: hm_inv_def)
    with run m'(5) show ?thesis by blast
  next
    case True
    let ?new = "min (?n * 2) (?n + HASHMAP_MAX_GROWTH_STEP)"
    have new1: "?new \<le> HASHMAP_MAX" using cap by simp
    have new2: "calloc_ok ?new" using al new1 by blast
    have new3: "?n < ?new" using n by (simp add: HASHMAP_MAX_GROWTH_STEP_def)
    have new4: "0 < ?new" using new3 by linarith
    from ti have wf: "\<forall>b\<in>set (bins m). bin_wf b" and dk: "distinct_keys (bins m)"
      by (simp_all add: table_inv_def)
    have oc: "occ_count (bins m) \<le> ?new" using occ_count_le [of "bins m"] new3 by linarith
    from hashmap_resize_correct [where calloc_ok = calloc_ok and m = m and n = ?new, OF wf dk oc new4 new1 new2]
    obtain m1 where m1: "hashmap_resize calloc_ok m ?new = Some (Inr (m1, 0))" "table_inv (bins m1)"
      "length_h m1 = occ_count (bins m1)" "length (bins m1) = ?new" "minsize m1 = minsize m"
      "kvs (bins m1) = kvs (bins m)" "occ_count (bins m1) = occ_count (bins m)"
      by blast
    have ab1: "k \<notin> keys_of (bins m1)" using ab m1(6) by (simp add: keys_of_kvs)
    have room: "occ_count (bins m1) < length (bins m1)"
      using m1(4,7) occ_count_le [of "bins m"] new3 by linarith
    from hashmap_insert_no_resize_absent [OF m1(2) ab1 room, of v]
    obtain m' where m': "hashmap_insert_no_resize m1 k v = Some (Inr (m', v))" "table_inv (bins m')"
      "length (bins m') = length (bins m1)" "minsize m' = minsize m1"
      "kvs (bins m') = insert (k, v) (kvs (bins m1))"
      "occ_count (bins m') = occ_count (bins m1) + 1" "length_h m' = length_h m1 + 1"
      by blast
    have pb: "push_bit 1 ?n = ?n * 2" by (simp add: push_bit_eq_mult)
    have run: "hashmap_insert calloc_ok m k v = Some (Inr (m', v))"
      using True m1(1) m'(1) by (simp add: hashmap_insert_def Let_def pb)
    have "minsize m' \<le> length (bins m')" using m'(3,4) m1(4,5) ms new3 by linarith
    then have "hm_inv m'" using m'(2,4,6,7) m1(3,5) ms by (simp add: hm_inv_def)
    moreover have "kvs (bins m') = insert (k, v) (kvs (bins m))" using m'(5) m1(6) by simp
    ultimately show ?thesis using run by blast
  qed
qed

section \<open>The backward shift of \<open>hashmap_delete\<close>\<close>

lemma hole_invD:
  assumes "hole_inv bs i" and "t < length bs" and "t \<noteq> i" and "occupied (bs ! t)"
  shows "psl (bs ! t) < length bs"
    and "pos (length bs) (ideal (length bs) (bs ! t)) (psl (bs ! t)) = t"
    and "\<And>d. d < psl (bs ! t) \<Longrightarrow> pos (length bs) (ideal (length bs) (bs ! t)) d \<noteq> i \<Longrightarrow>
           occupied (bs ! pos (length bs) (ideal (length bs) (bs ! t)) d)
           \<and> d \<le> psl (bs ! pos (length bs) (ideal (length bs) (bs ! t)) d)"
  using assms unfolding hole_inv_def path_hole_def by blast+

lemma hole_inv_distinct:
  assumes "hole_inv bs i" and "a < length bs" and "b < length bs" and "a \<noteq> i" and "b \<noteq> i"
    and "occupied (bs ! a)" and "key (bs ! a) = key (bs ! b)"
  shows "a = b"
  using assms unfolding hole_inv_def by blast

lemma table_inv_hole:
  assumes "table_inv bs" and "i < length bs"
  shows "hole_inv bs i"
  using assms unfolding hole_inv_def path_hole_def table_inv_def rh_layout_def distinct_keys_def
  by blast

lemma clear_bin_simps [simp]:
  "\<not> occupied (clear_bin b)" "key (clear_bin b) = None" "bin_wf (clear_bin b)"
  by (simp_all add: clear_bin_def occupied_def bin_wf_def)

lemma shift_step:
  assumes h: "hole_inv bs i" and j: "j = (i + 1) mod length bs" and ji: "j \<noteq> i"
    and oc: "occupied (bs ! j)" and ps: "psl (bs ! j) \<noteq> 0"
  shows "hole_inv (bs[j := (bs ! j)\<lparr>psl := psl (bs ! j) - 1\<rparr>, i := (bs ! j)\<lparr>psl := psl (bs ! j) - 1\<rparr>]) j"
proof -
  let ?n = "length bs"
  let ?c = "bs ! j"
  let ?q = "psl ?c"
  let ?nb = "?c\<lparr>psl := ?q - 1\<rparr>"
  let ?bs2 = "bs[j := ?nb, i := ?nb]"
  from h have i: "i < ?n" and wf: "\<forall>b\<in>set bs. bin_wf b" by (simp_all add: hole_inv_def)
  have n0: "0 < ?n" using i by (cases bs) simp_all
  have jn: "j < ?n" unfolding j using n0 by (rule mod_less_divisor)
  have nj: "Suc i mod ?n = j" using j by simp
  have len2: "length ?bs2 = ?n" by simp
  have at_i: "?bs2 ! i = ?nb" using i by simp
  have at_o: "?bs2 ! t = bs ! t" if "t \<noteq> i" "t \<noteq> j" for t using that by simp
  have oc_nb: "occupied ?nb" using oc by simp
  note cD = hole_invD [OF h jn ji oc]
  have q1: "Suc (?q - 1) = ?q" using ps by simp
  have pqi: "pos ?n (ideal ?n ?c) (?q - 1) = i"
  proof (rule nxt_inj [of _ ?n])
    show "pos ?n (ideal ?n ?c) (?q - 1) < ?n" using n0 by (rule pos_less)
    show "i < ?n" by fact
    have "Suc (pos ?n (ideal ?n ?c) (?q - 1)) mod ?n = pos ?n (ideal ?n ?c) (Suc (?q - 1))"
      by (rule pos_Suc')
    also have "\<dots> = j" using cD(2) q1 by simp
    finally show "(pos ?n (ideal ?n ?c) (?q - 1) + 1) mod ?n = (i + 1) mod ?n" using nj by simp
  qed
  have wf2: "\<forall>b\<in>set ?bs2. bin_wf b"
  proof
    fix b assume "b \<in> set ?bs2"
    then have "b = ?nb \<or> b \<in> set bs"
      using set_update_subset_insert [of "bs[j := ?nb]" i ?nb] set_update_subset_insert [of bs j ?nb]
      by blast
    moreover have "bin_wf ?c" using wf jn by simp
    ultimately show "bin_wf b" using wf by auto
  qed
  have lay2: "psl (?bs2 ! t) < ?n \<and> pos ?n (ideal ?n (?bs2 ! t)) (psl (?bs2 ! t)) = t
       \<and> path_hole ?bs2 j (?bs2 ! t)"
    if t: "t < ?n" and tj: "t \<noteq> j" and ot: "occupied (?bs2 ! t)" for t
  proof (cases "t = i")
    case True
    have "path_hole ?bs2 j ?nb"
      unfolding path_hole_def
    proof (intro allI impI)
      fix d assume d: "d < psl ?nb"
      let ?r = "pos ?n (ideal ?n ?c) d"
      have dq: "d < ?q - 1" using d by simp
      have ri: "?r \<noteq> i"
      proof
        assume "?r = i"
        with pqi have "pos ?n (ideal ?n ?c) d = pos ?n (ideal ?n ?c) (?q - 1)" by simp
        from pos_inj [OF _ _ this] dq cD(1) show False by simp
      qed
      have old: "occupied (bs ! ?r) \<and> d \<le> psl (bs ! ?r)" using cD(3) [of d] dq ri by simp
      have "?r = j \<or> (occupied (?bs2 ! ?r) \<and> d \<le> psl (?bs2 ! ?r))"
      proof (cases "?r = j")
        case True then show ?thesis by simp
      next
        case False
        with ri at_o [of ?r] old show ?thesis by simp
      qed
      then show "pos (length ?bs2) (ideal (length ?bs2) ?nb) d = j
         \<or> (occupied (?bs2 ! pos (length ?bs2) (ideal (length ?bs2) ?nb) d)
            \<and> d \<le> psl (?bs2 ! pos (length ?bs2) (ideal (length ?bs2) ?nb) d))"
        by simp
    qed
    then show ?thesis using True at_i pqi cD(1) by simp
  next
    case False
    then have same: "?bs2 ! t = bs ! t" using tj at_o by simp
    with ot have ot': "occupied (bs ! t)" by simp
    note tD = hole_invD [OF h t False ot']
    let ?p = "psl (bs ! t)"
    have "path_hole ?bs2 j (bs ! t)"
      unfolding path_hole_def
    proof (intro allI impI)
      fix d assume d: "d < ?p"
      let ?r = "pos ?n (ideal ?n (bs ! t)) d"
      have "?r = j \<or> (occupied (?bs2 ! ?r) \<and> d \<le> psl (?bs2 ! ?r))"
      proof (cases "?r = j")
        case True then show ?thesis by simp
      next
        case rj: False
        show ?thesis
        proof (cases "?r = i")
          case True
          have nx: "pos ?n (ideal ?n (bs ! t)) (Suc d) = j"
            using pos_Suc' [of ?n "ideal ?n (bs ! t)" d] True nj by simp
          have "Suc d \<noteq> ?p" using nx tD(2) tj by auto
          with d have sd: "Suc d < ?p" by simp
          from tD(3) [OF sd] nx ji have "Suc d \<le> ?q" by simp
          then have "d \<le> ?q - 1" by simp
          with True at_i oc_nb show ?thesis by simp
        next
          case False
          with tD(3) [OF d] rj at_o [of ?r] show ?thesis by simp
        qed
      qed
      then show "pos (length ?bs2) (ideal (length ?bs2) (bs ! t)) d = j
         \<or> (occupied (?bs2 ! pos (length ?bs2) (ideal (length ?bs2) (bs ! t)) d)
            \<and> d \<le> psl (?bs2 ! pos (length ?bs2) (ideal (length ?bs2) (bs ! t)) d))"
        by simp
    qed
    then show ?thesis using same tD(1,2) by simp
  qed
  have key_i: "key (?bs2 ! i) = key (bs ! j)" using at_i by simp
  have dk2: "a = b"
    if a: "a < ?n" and b: "b < ?n" and aj: "a \<noteq> j" and bj: "b \<noteq> j"
      and oa: "occupied (?bs2 ! a)" and eq: "key (?bs2 ! a) = key (?bs2 ! b)" for a b
  proof (cases "a = i"; cases "b = i")
    assume "a = i" "b = i" then show ?thesis by simp
  next
    assume ai: "a = i" and bi: "b \<noteq> i"
    then have "key (bs ! j) = key (bs ! b)" using eq key_i at_o [OF bi bj] by simp
    from hole_inv_distinct [OF h jn b ji bi oc this] bj show ?thesis by simp
  next
    assume ai: "a \<noteq> i" and bi: "b = i"
    then have e: "key (bs ! a) = key (bs ! j)" using eq key_i at_o [OF ai aj] by simp
    have "occupied (bs ! a)" using oa at_o [OF ai aj] by simp
    from hole_inv_distinct [OF h a jn ai ji this e] aj show ?thesis by simp
  next
    assume ai: "a \<noteq> i" and bi: "b \<noteq> i"
    then have e: "key (bs ! a) = key (bs ! b)" using eq at_o [OF ai aj] at_o [OF bi bj] by simp
    have "occupied (bs ! a)" using oa at_o [OF ai aj] by simp
    from hole_inv_distinct [OF h a b ai bi this e] show ?thesis .
  qed
  show ?thesis
    unfolding hole_inv_def len2
    using jn wf2 lay2 dk2 by blast
qed

lemma shift_stop:
  assumes h: "hole_inv bs i"
    and stop: "key (bs[i := clear_bin (bs ! i)] ! ((i + 1) mod length bs)) = None
               \<or> psl (bs[i := clear_bin (bs ! i)] ! ((i + 1) mod length bs)) = 0"
  shows "table_inv (bs[i := clear_bin (bs ! i)])"
proof -
  let ?n = "length bs"
  let ?bs1 = "bs[i := clear_bin (bs ! i)]"
  let ?j = "Suc i mod ?n"
  from h have i: "i < ?n" and wf: "\<forall>b\<in>set bs. bin_wf b" by (simp_all add: hole_inv_def)
  have n0: "0 < ?n" using i by (cases bs) simp_all
  have jn: "?j < ?n" using n0 by (rule mod_less_divisor)
  have at_i: "?bs1 ! i = clear_bin (bs ! i)" using i by simp
  have at_o: "?bs1 ! t = bs ! t" if "t \<noteq> i" for t using that by simp
  have stop': "\<not> (occupied (bs ! ?j) \<and> psl (bs ! ?j) \<noteq> 0)" if "?j \<noteq> i"
    using stop at_o [OF that] by (auto simp: occupied_def)
  have wf1: "\<forall>b\<in>set ?bs1. bin_wf b"
    using wf set_update_subset_insert [of bs i "clear_bin (bs ! i)"] by auto
  have lay1: "psl (?bs1 ! t) < ?n \<and> pos ?n (ideal ?n (?bs1 ! t)) (psl (?bs1 ! t)) = t
       \<and> (\<forall>d<psl (?bs1 ! t). occupied (?bs1 ! pos ?n (ideal ?n (?bs1 ! t)) d)
              \<and> d \<le> psl (?bs1 ! pos ?n (ideal ?n (?bs1 ! t)) d))"
    if t: "t < ?n" and ot: "occupied (?bs1 ! t)" for t
  proof -
    have ti: "t \<noteq> i" using ot at_i by auto
    then have same: "?bs1 ! t = bs ! t" by (rule at_o)
    with ot have ot': "occupied (bs ! t)" by simp
    note tD = hole_invD [OF h t ti ot']
    let ?p = "psl (bs ! t)"
    have "occupied (?bs1 ! pos ?n (ideal ?n (bs ! t)) d) \<and> d \<le> psl (?bs1 ! pos ?n (ideal ?n (bs ! t)) d)"
      if d: "d < ?p" for d
    proof -
      let ?r = "pos ?n (ideal ?n (bs ! t)) d"
      have ri: "?r \<noteq> i"
      proof
        assume r: "?r = i"
        have nx: "pos ?n (ideal ?n (bs ! t)) (Suc d) = ?j"
          using pos_Suc' [of ?n "ideal ?n (bs ! t)" d] r by simp
        show False
        proof (cases "?j = i")
          case True
          then have "pos ?n (ideal ?n (bs ! t)) (Suc d) = pos ?n (ideal ?n (bs ! t)) d" using nx r by simp
          from pos_inj [OF _ _ this] d tD(1) show False by simp
        next
          case False
          show False
          proof (cases "Suc d = ?p")
            case True
            then have "?j = t" using nx tD(2) by simp
            with stop' [OF False] ot' True show False by simp
          next
            case sd: False
            with d have "Suc d < ?p" by simp
            from tD(3) [OF this] nx False stop' [OF False] show False by simp
          qed
        qed
      qed
      with tD(3) [OF d] at_o [of ?r] show ?thesis by simp
    qed
    then show ?thesis using same tD(1,2) by simp
  qed
  have dk1: "a = b"
    if a: "a < ?n" and b: "b < ?n" and oa: "occupied (?bs1 ! a)" and eq: "key (?bs1 ! a) = key (?bs1 ! b)"
    for a b
  proof -
    have ai: "a \<noteq> i" using oa at_i by auto
    have bi: "b \<noteq> i"
    proof
      assume "b = i"
      then have "key (?bs1 ! a) = None" using eq at_i by simp
      with oa show False by (simp add: occupied_def)
    qed
    have "occupied (bs ! a)" "key (bs ! a) = key (bs ! b)" using oa eq at_o [OF ai] at_o [OF bi] by simp_all
    from hole_inv_distinct [OF h a b ai bi this] show ?thesis .
  qed
  have "?bs1 \<noteq> []" using n0 by simp
  moreover have "rh_layout ?bs1" unfolding rh_layout_def using lay1 by simp
  moreover have "distinct_keys ?bs1" unfolding distinct_keys_def using dk1 by simp
  ultimately show ?thesis unfolding table_inv_def using wf1 by blast
qed

section \<open>\<open>hashmap_delete\<close> and \<open>hashmap_find\<close> on a well-formed table\<close>

lemma kvs_clear_iff:
  assumes "i < length bs"
  shows "(kb, v) \<in> kvs (bs[i := clear_bin (bs ! i)]) \<longleftrightarrow>
     (\<exists>t<length bs. t \<noteq> i \<and> key (bs ! t) = Some kb \<and> val (bs ! t) = v)"
  using kvs_update_iff [OF assms, of kb v "clear_bin (bs ! i)"] by simp

lemma kvs_shift_iff:
  assumes i: "i < length bs" and j: "j < length bs" and ij: "i \<noteq> j"
    and y: "key y = key (bs ! j)" "val y = val (bs ! j)" and z: "key z = None"
  shows "(kb, v) \<in> kvs (bs[i := y, j := z]) \<longleftrightarrow>
     (\<exists>t<length bs. t \<noteq> i \<and> key (bs ! t) = Some kb \<and> val (bs ! t) = v)"
proof -
  let ?n = "length bs"
  have "(kb, v) \<in> kvs ((bs[i := y])[j := z]) \<longleftrightarrow>
      (\<exists>t<?n. t \<noteq> j \<and> key (bs[i := y] ! t) = Some kb \<and> val (bs[i := y] ! t) = v)"
    using kvs_update_iff [of j "bs[i := y]" kb v z] j z by simp
  also have "\<dots> \<longleftrightarrow> (\<exists>t<?n. t \<noteq> i \<and> key (bs ! t) = Some kb \<and> val (bs ! t) = v)"
    (is "?A \<longleftrightarrow> ?B")
  proof
    assume ?A
    then obtain t where t: "t < ?n" "t \<noteq> j" "key (bs[i := y] ! t) = Some kb" "val (bs[i := y] ! t) = v"
      by blast
    show ?B
    proof (cases "t = i")
      case True
      with t i y have "key (bs ! j) = Some kb \<and> val (bs ! j) = v" by simp
      with j ij show ?thesis by metis
    next
      case False
      with t have "key (bs ! t) = Some kb \<and> val (bs ! t) = v" by simp
      with t(1) False show ?thesis by blast
    qed
  next
    assume ?B
    then obtain t where t: "t < ?n" "t \<noteq> i" "key (bs ! t) = Some kb" "val (bs ! t) = v"
      by blast
    show ?A
    proof (cases "t = j")
      case True
      with t i y have "key (bs[i := y] ! i) = Some kb \<and> val (bs[i := y] ! i) = v" by simp
      with i ij show ?thesis by metis
    next
      case False
      with t have "key (bs[i := y] ! t) = Some kb \<and> val (bs[i := y] ! t) = v" by simp
      with t(1) False show ?thesis by blast
    qed
  qed
  finally show ?thesis .
qed

lemma kvs_eqI: "(\<And>kb v. (kb, v) \<in> kvs as \<longleftrightarrow> (kb, v) \<in> kvs bs) \<Longrightarrow> kvs as = kvs bs"
  by auto

lemma occ_count_clear:
  assumes "i < length bs"
  shows "occ_count (bs[i := clear_bin (bs ! i)]) + (if occupied (bs ! i) then 1 else 0) = occ_count bs"
  using occ_count_update [OF assms, of "clear_bin (bs ! i)"] by simp

lemma occ_count_shift:
  assumes i: "i < length bs" and j: "j < length bs" and ij: "i \<noteq> j"
    and y: "occupied y = occupied (bs ! j)" and z: "\<not> occupied z"
  shows "occ_count (bs[i := y, j := z]) = occ_count (bs[i := clear_bin (bs ! i)])"
proof -
  have a: "occ_count (bs[i := y]) + (if occupied (bs ! i) then 1 else 0)
      = occ_count bs + (if occupied (bs ! j) then 1 else 0)"
    using occ_count_update [OF i, of y] y by simp
  have "occ_count ((bs[i := y])[j := z]) + (if occupied (bs[i := y] ! j) then 1 else 0)
      = occ_count (bs[i := y]) + (if occupied z then 1 else 0)"
    using occ_count_update [of j "bs[i := y]" z] j by simp
  then have b: "occ_count (bs[i := y, j := z]) + (if occupied (bs ! j) then 1 else 0) = occ_count (bs[i := y])"
    using ij z by simp
  from a b occ_count_clear [OF i] show ?thesis by (simp split: if_splits)
qed

lemma shift_back_correct:
  "hole_inv bs i \<Longrightarrow>
     \<exists>bs'. shift_back bs i = Inr bs' \<and> table_inv bs' \<and> length bs' = length bs
        \<and> kvs bs' = kvs (bs[i := clear_bin (bs ! i)])
        \<and> occ_count bs' = occ_count (bs[i := clear_bin (bs ! i)])"
proof (induction bs i rule: shift_back.induct)
  case (1 bs i)
  let ?n = "length bs"
  let ?bs1 = "bs[i := clear_bin (bs ! i)]"
  let ?j = "(i + 1) mod ?n"
  from "1.prems" have i: "i < ?n" by (simp add: hole_inv_def)
  have n0: "0 < ?n" using i by (cases bs) simp_all
  have jn: "?j < ?n" using n0 by (rule mod_less_divisor)
  have unf: "shift_back bs i =
      (if key (?bs1 ! ?j) = None \<or> psl (?bs1 ! ?j) = 0 then Inr ?bs1
       else shift_back (?bs1[?j := (?bs1 ! ?j)\<lparr>psl := psl (?bs1 ! ?j) - 1\<rparr>,
                             i := (?bs1 ! ?j)\<lparr>psl := psl (?bs1 ! ?j) - 1\<rparr>]) ?j)"
    using i by (subst shift_back.simps) (simp add: Let_def)
  show ?case
  proof (cases "key (?bs1 ! ?j) = None \<or> psl (?bs1 ! ?j) = 0")
    case True
    have "shift_back bs i = Inr ?bs1" using unf True by simp
    moreover have "table_inv ?bs1" using shift_stop [OF "1.prems" True] .
    ultimately show ?thesis by simp
  next
    case False
    have ji: "?j \<noteq> i"
    proof
      assume "?j = i"
      then have "key (?bs1 ! ?j) = None" using i by simp
      with False show False by simp
    qed
    have bj: "?bs1 ! ?j = bs ! ?j" using ji by simp
    let ?nb = "(bs ! ?j)\<lparr>psl := psl (bs ! ?j) - 1\<rparr>"
    let ?bs2 = "bs[?j := ?nb, i := ?nb]"
    have e2: "?bs1[?j := ?nb, i := ?nb] = ?bs2" using ji by (simp add: list_update_swap)
    have oc: "occupied (bs ! ?j)" and ps: "psl (bs ! ?j) \<noteq> 0"
      using False bj by (simp_all add: occupied_def)
    have h2: "hole_inv ?bs2 ?j" using shift_step [OF "1.prems" refl ji oc ps] .
    have run0: "shift_back bs i =
        shift_back (?bs1[?j := (?bs1 ! ?j)\<lparr>psl := psl (?bs1 ! ?j) - 1\<rparr>,
                         i := (?bs1 ! ?j)\<lparr>psl := psl (?bs1 ! ?j) - 1\<rparr>]) ?j"
      using unf False by (simp only: if_False)
    have run: "shift_back bs i = shift_back ?bs2 ?j" using run0 unfolding bj e2 .
    have "\<exists>bs'. shift_back ?bs2 ?j = Inr bs' \<and> table_inv bs' \<and> length bs' = length ?bs2
        \<and> kvs bs' = kvs (?bs2[?j := clear_bin (?bs2 ! ?j)])
        \<and> occ_count bs' = occ_count (?bs2[?j := clear_bin (?bs2 ! ?j)])"
      using "1.IH" [OF _ refl refl refl False refl] i h2 unfolding bj e2 by simp
    then obtain bs' where r: "shift_back ?bs2 ?j = Inr bs'" "table_inv bs'" "length bs' = length ?bs2"
        "kvs bs' = kvs (?bs2[?j := clear_bin (?bs2 ! ?j)])"
        "occ_count bs' = occ_count (?bs2[?j := clear_bin (?bs2 ! ?j)])"
      by blast
    have at_j: "?bs2 ! ?j = ?nb" using ji jn by simp
    have e3: "?bs2[?j := clear_bin (?bs2 ! ?j)] = bs[i := ?nb, ?j := clear_bin ?nb]"
      unfolding at_j using ji by (simp add: list_update_swap)
    have k: "kvs (bs[i := ?nb, ?j := clear_bin ?nb]) = kvs ?bs1"
    proof (rule kvs_eqI)
      fix kb v
      have "(kb, v) \<in> kvs (bs[i := ?nb, ?j := clear_bin ?nb]) \<longleftrightarrow>
          (\<exists>t<?n. t \<noteq> i \<and> key (bs ! t) = Some kb \<and> val (bs ! t) = v)"
        by (rule kvs_shift_iff [OF i jn ji [symmetric]]) simp_all
      then show "(kb, v) \<in> kvs (bs[i := ?nb, ?j := clear_bin ?nb]) \<longleftrightarrow> (kb, v) \<in> kvs ?bs1"
        unfolding kvs_clear_iff [OF i] .
    qed
    have o: "occ_count (bs[i := ?nb, ?j := clear_bin ?nb]) = occ_count ?bs1"
      by (rule occ_count_shift [OF i jn ji [symmetric]]) simp_all
    from r run k o show ?thesis unfolding e3 by simp
  qed
qed

lemma delete_probe_found:
  assumes "delete_probe bs h k n i = Inr (Some j)" and "\<forall>b\<in>set bs. bin_wf b" and "i < length bs"
  shows "j < length bs \<and> key (bs ! j) = Some k"
  using assms
proof (induction bs h k n i rule: delete_probe.induct)
  case (1 bs h k n i)
  have i: "i < length bs" by fact
  then have "0 < length bs" by (cases bs) simp_all
  then have nxt: "(i + 1) mod length bs < length bs" by (rule mod_less_divisor)
  have unf: "delete_probe bs h k n i =
     (if key (bs ! i) = None \<or> n > psl (bs ! i) then Inr None
      else if bin_matches (bs ! i) h k then Inr (Some i)
      else delete_probe bs h k (n + 1) ((i + 1) mod length bs))"
    using i by (subst delete_probe.simps) simp
  show ?case
  proof (cases "key (bs ! i) = None \<or> n > psl (bs ! i)")
    case True
    with unf "1.prems"(1) show ?thesis by simp
  next
    case stop: False
    show ?thesis
    proof (cases "bin_matches (bs ! i) h k")
      case True
      with unf stop "1.prems"(1) have ji: "j = i" by simp
      from stop obtain kb where kb: "key (bs ! i) = Some kb" by auto
      have "bin_wf (bs ! i)" using "1.prems"(2) i by simp
      with kb True have "kb = k" by (auto simp: bin_wf_def bin_matches_def)
      with kb ji i show ?thesis by simp
    next
      case False
      with unf stop "1.prems"(1) have "delete_probe bs h k (n + 1) ((i + 1) mod length bs) = Inr (Some j)"
        by simp
      from "1.IH" [OF _ stop False this "1.prems"(2) nxt] i show ?thesis by simp
    qed
  qed
qed

lemma keys_of_kvs_iff: "kb \<in> keys_of bs \<longleftrightarrow> (\<exists>v. (kb, v) \<in> kvs bs)"
  by (auto simp: keys_of_iff kvs_iff)

lemma hashmap_delete_correct:
  assumes inv: "hm_inv m" and run: "hashmap_delete calloc_ok m k = Some (Inr (m', v))"
  shows "hm_inv m' \<and> keys_of (bins m') \<subseteq> keys_of (bins m) \<and> length (bins m') \<le> length (bins m)
     \<and> (v \<noteq> NULL \<longrightarrow> k \<notin> keys_of (bins m'))"
proof -
  let ?bs = "bins m"
  let ?n = "length ?bs"
  let ?i0 = "unat (get_hash k) mod ?n"
  from inv have ti: "table_inv ?bs" and lh: "length_h m = occ_count ?bs"
    and ms: "1 \<le> minsize m" "minsize m \<le> ?n" by (simp_all add: hm_inv_def)
  have n0: "0 < ?n" using ms by (cases ?bs) simp_all
  then have ne: "?bs \<noteq> []" by simp
  have i0: "?i0 < ?n" using n0 by (rule mod_less_divisor)
  from ti have wf: "\<forall>b\<in>set ?bs. bin_wf b" and dk: "distinct_keys ?bs" by (simp_all add: table_inv_def)
  from delete_probe_shape [OF i0, of "get_hash k" k 0]
  obtain r where dp: "delete_probe ?bs (get_hash k) k 0 ?i0 = Inr r" by blast
  show ?thesis
  proof (cases r)
    case None
    with run dp ne have "m' = m" "v = NULL" by (simp_all add: hashmap_delete_def Let_def)
    with inv show ?thesis by simp
  next
    case (Some i)
    from delete_probe_found [OF dp [unfolded Some] wf i0]
    have i: "i < ?n" and ki: "key (?bs ! i) = Some k" by simp_all
    let ?bs1 = "?bs[i := clear_bin (?bs ! i)]"
    from shift_back_correct [OF table_inv_hole [OF ti i]]
    obtain bs' where sb: "shift_back ?bs i = Inr bs'" and ti': "table_inv bs'" and len': "length bs' = ?n"
      and kv': "kvs bs' = kvs ?bs1" and oc': "occ_count bs' = occ_count ?bs1"
      by blast
    have oc1: "occ_count bs' + 1 = occ_count ?bs"
      using occ_count_clear [OF i] ki oc' by (simp add: occupied_def)
    have sub': "keys_of bs' \<subseteq> keys_of ?bs"
    proof
      fix x assume "x \<in> keys_of bs'"
      then obtain y where "(x, y) \<in> kvs ?bs1" unfolding keys_of_kvs_iff kv' by blast
      then obtain t where "t < ?n" "key (?bs ! t) = Some x" unfolding kvs_clear_iff [OF i] by blast
      then show "x \<in> keys_of ?bs" unfolding keys_of_iff by blast
    qed
    have gone: "k \<notin> keys_of bs'"
    proof
      assume "k \<in> keys_of bs'"
      then obtain x where "(k, x) \<in> kvs ?bs1" unfolding keys_of_kvs_iff kv' by blast
      then obtain t where t: "t < ?n" "t \<noteq> i" "key (?bs ! t) = Some k"
        unfolding kvs_clear_iff [OF i] by blast
      have "occupied (?bs ! i)" using ki by (simp add: occupied_def)
      with dk i t ki show False unfolding distinct_keys_def by metis
    qed
    let ?m1 = "m\<lparr>bins := bs', length_h := length_h m - 1\<rparr>"
    have inv1: "hm_inv ?m1" using ti' len' oc1 lh ms by (simp add: hm_inv_def)
    let ?new = "max (?n div 2) (minsize m)"
    have "\<exists>m2 rc. hashmap_resize calloc_ok ?m1 ?new = Some (Inr (m2, rc)) \<and> hm_inv m2
        \<and> keys_of (bins m2) = keys_of bs' \<and> length (bins m2) \<le> ?n"
      if small: "length_h ?m1 < approx_40_percent ?n"
    proof (cases "?new \<le> HASHMAP_MAX \<and> calloc_ok ?new")
      case True
      from ti' have wf': "\<forall>b\<in>set (bins ?m1). bin_wf b" and dk': "distinct_keys (bins ?m1)"
        by (simp_all add: table_inv_def)
      have "occ_count bs' < approx_40_percent ?n" using small oc1 lh by simp
      then have fit: "occ_count (bins ?m1) \<le> ?new" using approx_40_half [of ?n] by simp
      have pos: "0 < ?new" using ms by simp
      from hashmap_resize_correct [where calloc_ok = calloc_ok and m = ?m1 and n = ?new,
          OF wf' dk' fit pos] True
      obtain m2 where m2: "hashmap_resize calloc_ok ?m1 ?new = Some (Inr (m2, 0))" "table_inv (bins m2)"
        "length_h m2 = occ_count (bins m2)" "length (bins m2) = ?new" "minsize m2 = minsize ?m1"
        "kvs (bins m2) = kvs (bins ?m1)" "occ_count (bins m2) = occ_count (bins ?m1)"
        by blast
      have "hm_inv m2" using m2(2,3,4,5) ms by (simp add: hm_inv_def)
      moreover have "keys_of (bins m2) = keys_of bs'" using m2(6) by (simp add: keys_of_kvs)
      moreover have "length (bins m2) \<le> ?n" using m2(4) ms by simp
      ultimately show ?thesis using m2(1) by blast
    next
      case False
      then have "hashmap_resize calloc_ok ?m1 ?new = Some (Inr (?m1, - 1))"
        by (auto simp: hashmap_resize_def)
      with inv1 len' show ?thesis by simp
    qed
    note resized = this
    have unfd: "hashmap_delete calloc_ok m k =
       (if length_h ?m1 > minsize ?m1 \<and> length_h ?m1 < approx_40_percent ?n then
          (case hashmap_resize calloc_ok ?m1 (max (drop_bit 1 (length (bins ?m1))) (minsize ?m1)) of
             None \<Rightarrow> None
           | Some (Inl e) \<Rightarrow> Some (Inl e)
           | Some (Inr (m2, rc)) \<Rightarrow> Some (Inr (m2, val (?bs ! i))))
        else Some (Inr (?m1, val (?bs ! i))))"
      using dp Some sb ne by (simp add: hashmap_delete_def Let_def)
    have new_eq: "max (drop_bit 1 (length (bins ?m1))) (minsize ?m1) = ?new"
      using len' by (simp add: drop_bit_eq_div)
    have "hm_inv m' \<and> keys_of (bins m') = keys_of bs' \<and> length (bins m') \<le> ?n"
    proof (cases "length_h ?m1 > minsize ?m1 \<and> length_h ?m1 < approx_40_percent ?n")
      case True
      then have "length_h ?m1 < approx_40_percent ?n" by simp
      from resized [OF this] obtain m2 rc where
        m2: "hashmap_resize calloc_ok ?m1 ?new = Some (Inr (m2, rc))" "hm_inv m2"
          "keys_of (bins m2) = keys_of bs'" "length (bins m2) \<le> ?n"
        by blast
      have "hashmap_delete calloc_ok m k = Some (Inr (m2, val (?bs ! i)))"
        unfolding unfd new_eq using True m2(1) by simp
      with run have "m' = m2" by simp
      with m2 show ?thesis by simp
    next
      case False
      have "hashmap_delete calloc_ok m k = Some (Inr (?m1, val (?bs ! i)))"
        unfolding unfd using False by (simp only: if_False)
      with run have "m' = ?m1" by simp
      with inv1 len' show ?thesis by simp
    qed
    with sub' gone show ?thesis by simp
  qed
qed

lemma hashmap_delete_absent:
  assumes inv: "hm_inv m" and ab: "k \<notin> keys_of (bins m)"
  shows "hashmap_delete calloc_ok m k = Some (Inr (m, NULL))"
proof -
  let ?bs = "bins m"
  let ?n = "length ?bs"
  let ?i0 = "unat (get_hash k) mod ?n"
  from inv have ti: "table_inv ?bs" and ms: "1 \<le> minsize m" "minsize m \<le> ?n"
    by (simp_all add: hm_inv_def)
  have n0: "0 < ?n" using ms by (cases ?bs) simp_all
  then have ne: "?bs \<noteq> []" by simp
  have i0: "?i0 < ?n" using n0 by (rule mod_less_divisor)
  from ti have wf: "\<forall>b\<in>set ?bs. bin_wf b" by (simp add: table_inv_def)
  from delete_probe_shape [OF i0, of "get_hash k" k 0]
  obtain r where dp: "delete_probe ?bs (get_hash k) k 0 ?i0 = Inr r" by blast
  have "r = None"
  proof (cases r)
    case (Some j)
    from delete_probe_found [OF dp [unfolded Some] wf i0] ab show ?thesis by (auto simp: keys_of_iff)
  qed simp
  with dp ne show ?thesis by (simp add: hashmap_delete_def Let_def)
qed

lemma hashmap_find_present:
  assumes inv: "hm_inv m" and kv: "(k, v) \<in> kvs (bins m)"
  shows "hashmap_find m k = Inr v"
proof -
  let ?bs = "bins m"
  let ?n = "length ?bs"
  from inv have ti: "table_inv ?bs" and ms: "1 \<le> minsize m" "minsize m \<le> ?n"
    by (simp_all add: hm_inv_def)
  have n0: "0 < ?n" using ms by (cases ?bs) simp_all
  then have ne: "?bs \<noteq> []" by simp
  from kv obtain j where j: "j < ?n" "key (?bs ! j) = Some k" "val (?bs ! j) = v"
    unfolding kvs_iff by blast
  from ti j(1) have "bin_wf (?bs ! j)" by (simp add: table_inv_def)
  with j(2) have h: "hash (?bs ! j) = get_hash k" by (simp add: bin_wf_def)
  from find_loop_walk [OF ti j(1,2), of 0]
  have "find_loop ?bs (get_hash k) k 0 (ideal ?n (?bs ! j)) = Inr v" using j(3) by (simp add: pos_0)
  then show ?thesis using ne h by (simp add: hashmap_find_def ideal_def)
qed

lemma hashmap_find_absent:
  assumes inv: "hm_inv m" and ab: "k \<notin> keys_of (bins m)" and k: "k \<noteq> []"
  shows "hashmap_find m k = Inr NULL"
proof -
  let ?bs = "bins m"
  let ?n = "length ?bs"
  from inv have ti: "table_inv ?bs" and ms: "1 \<le> minsize m" "minsize m \<le> ?n"
    by (simp_all add: hm_inv_def)
  have n0: "0 < ?n" using ms by (cases ?bs) simp_all
  then have ne: "?bs \<noteq> []" by simp
  have i0: "unat (get_hash k) mod ?n < ?n" using n0 by (rule mod_less_divisor)
  from ti have wf: "\<forall>b\<in>set ?bs. bin_wf b" by (simp add: table_inv_def)
  have "\<forall>b\<in>set ?bs. key b \<noteq> Some k"
    using ab unfolding keys_of_iff by (metis in_set_conv_nth)
  from find_loop_absent [OF wf k this i0] ne show ?thesis by (simp add: hashmap_find_def)
qed

section \<open>The cache on a well-formed hash index\<close>

lemma bind_p_simps:
  "bind_p None f = None"
  "bind_p (Some (Inl e)) f = Some (Inl e)"
  "bind_p (Some (Inr x)) f = f x"
  by (simp_all add: bind_p_def)

lemma bind_p_InrE:
  assumes "bind_p r f = Some (Inr y)" and "\<And>x. r = Some (Inr x) \<Longrightarrow> f x = Some (Inr y) \<Longrightarrow> thesis"
  shows thesis
  using assms by (auto simp: bind_p_def split: option.splits sum.splits)

lemma bind_f_InrE:
  assumes "bind_f r f = Inr y" and "\<And>x. r = Inr x \<Longrightarrow> f x = Inr y \<Longrightarrow> thesis"
  shows thesis
  using assms by (auto simp: bind_f_def split: sum.splits)

lemma set_next_has_val: "set_next ns p q = Inr ns' \<Longrightarrow> has_val ns a v \<Longrightarrow> has_val ns' a v"
  by (auto simp: set_next_def bind_f_def deref_def has_val_def split: sum.splits if_splits option.splits)

lemma set_prev_has_val: "set_prev ns p q = Inr ns' \<Longrightarrow> has_val ns a v \<Longrightarrow> has_val ns' a v"
  by (auto simp: set_prev_def bind_f_def deref_def has_val_def split: sum.splits if_splits option.splits)

lemma list_insert_head_has_val:
  assumes run: "list_insert_head l ns node = Inr (l', ns')" and hv: "has_val ns a v"
  shows "has_val ns' a v \<and> head l' = node"
proof (cases "length_l l = 0")
  case True
  with run have "bind_f (set_prev ns node node) (\<lambda>ns1.
        bind_f (set_next ns1 node node) (\<lambda>ns2.
        Inr (l\<lparr>head := node, length_l := length_l l + 1\<rparr>, ns2))) = Inr (l', ns')"
    by (simp add: list_insert_head_def)
  then obtain ns1 where a: "set_prev ns node node = Inr ns1"
    and "bind_f (set_next ns1 node node) (\<lambda>ns2.
        Inr (l\<lparr>head := node, length_l := length_l l + 1\<rparr>, ns2)) = Inr (l', ns')"
    by (rule bind_f_InrE)
  then obtain ns2 where b: "set_next ns1 node node = Inr ns2"
    and c: "Inr (l\<lparr>head := node, length_l := length_l l + 1\<rparr>, ns2) = (Inr (l', ns') :: fault + _)"
    by (elim bind_f_InrE)
  from c have "head l' = node" "ns' = ns2" by auto
  with set_next_has_val [OF b set_prev_has_val [OF a hv]] show ?thesis by simp
next
  case False
  with run have "bind_f (deref ns (head l)) (\<lambda>ho.
        bind_f (set_prev ns node (prev_n ho)) (\<lambda>ns1.
        bind_f (deref ns1 (head l)) (\<lambda>ho1.
        bind_f (set_next ns1 (prev_n ho1) node) (\<lambda>ns2.
        bind_f (set_next ns2 node (head l)) (\<lambda>ns3.
        bind_f (set_prev ns3 (head l) node) (\<lambda>ns4.
        Inr (l\<lparr>head := node, length_l := length_l l + 1\<rparr>, ns4))))))) = Inr (l', ns')"
    by (simp add: list_insert_head_def Let_def)
  then obtain ho :: node_t and ns1 and ho1 :: node_t and ns2 ns3 ns4 where
    a: "set_prev ns node (prev_n ho) = Inr ns1" and b: "set_next ns1 (prev_n ho1) node = Inr ns2"
    and c: "set_next ns2 node (head l) = Inr ns3" and d: "set_prev ns3 (head l) node = Inr ns4"
    and e: "Inr (l\<lparr>head := node, length_l := length_l l + 1\<rparr>, ns4) = (Inr (l', ns') :: fault + _)"
    by (elim bind_f_InrE) blast
  from e have "head l' = node" "ns' = ns4" by auto
  with set_prev_has_val [OF d set_next_has_val [OF c set_next_has_val [OF b set_prev_has_val [OF a hv]]]]
  show ?thesis by simp
qed

lemma list_insert_has_val:
  assumes "list_insert l ns b v = Inr (l', ns', b')"
  shows "head l' = b \<and> has_val ns' b v \<and> b' = b + 1"
proof -
  let ?ns0 = "ns(b \<mapsto> \<lparr>next_n = NULL, prev_n = NULL, value_n = v\<rparr>)"
  from assms have b: "b \<noteq> NULL" by (auto simp: list_insert_def Let_def split: if_splits)
  with assms have "bind_f (list_insert_head l ?ns0 b) (\<lambda>(l', ns'). Inr (l', ns', b + 1)) = Inr (l', ns', b')"
    by (simp add: list_insert_def Let_def)
  then obtain x where x: "list_insert_head l ?ns0 b = Inr x"
    and y: "(\<lambda>(l', ns'). Inr (l', ns', b + 1)) x = (Inr (l', ns', b') :: fault + _)"
    by (rule bind_f_InrE)
  from y have "x = (l', ns')" "b' = b + 1" by (auto split: prod.splits)
  moreover have "has_val ?ns0 b v" by (simp add: has_val_def)
  ultimately show ?thesis using list_insert_head_has_val [of l ?ns0 b l' ns' b v] x by simp
qed

lemma list_find_head:
  assumes "head l \<noteq> NULL" and "has_val ns (head l) v"
  shows "list_find l ns v = Some (Inr (head l))"
  unfolding list_find_def
  using assms by (subst list_find_loop.simps) (auto simp: deref_def has_val_def)

lemma cache_delete_cases:
  assumes m: "map_c c = Some m" and run: "cache_delete calloc_ok c p = Some (Inr (c', r))"
  shows "\<exists>blk m' v. p \<noteq> NULL \<and> blocks c p = Some blk
     \<and> hashmap_delete calloc_ok m (take (keylen_b blk) (key_b blk)) = Some (Inr (m', v))
     \<and> map_c c' = Some m' \<and> brk c' = brk c
     \<and> ((v = NULL \<and> r = - 1 \<and> blocks c' = blocks c)
        \<or> (v \<noteq> NULL \<and> r = 0 \<and> blocks c' = (blocks c)(p := None)))"
proof -
  from run m obtain blk where d: "deref (blocks c) p = Inr blk"
    and r1: "bind_p (hashmap_delete calloc_ok m (take (keylen_b blk) (key_b blk))) (\<lambda>(m', v).
       if v = NULL then Some (Inr (c\<lparr>map_c := Some m'\<rparr>, - 1))
       else
         let c1 = c\<lparr>map_c := Some m', size_c := size_c c - size_b blk\<rparr> in
         bind_p (list_find (lru_list c1) (nodes c1) p) (\<lambda>node.
         bind_p (Some (list_delete (lru_list c1) (nodes c1) node)) (\<lambda>(l', ns').
         bind_p (Some (free ns' node)) (\<lambda>ns''.
         bind_p (Some (free (blocks c1) p)) (\<lambda>bl'.
           Some (Inr (c1\<lparr>lru_list := l', nodes := ns'', blocks := bl'\<rparr>, 0))))))) = Some (Inr (c', r))"
    by (cases "deref (blocks c) p") (simp_all add: cache_delete_def the_map_def bind_p_simps)
  from d have p: "p \<noteq> NULL" "blocks c p = Some blk"
    by (auto simp: deref_def split: if_splits option.splits)
  from r1 obtain x where hd: "hashmap_delete calloc_ok m (take (keylen_b blk) (key_b blk)) = Some (Inr x)"
    and r2: "(\<lambda>(m', v).
       if v = NULL then Some (Inr (c\<lparr>map_c := Some m'\<rparr>, - 1))
       else
         let c1 = c\<lparr>map_c := Some m', size_c := size_c c - size_b blk\<rparr> in
         bind_p (list_find (lru_list c1) (nodes c1) p) (\<lambda>node.
         bind_p (Some (list_delete (lru_list c1) (nodes c1) node)) (\<lambda>(l', ns').
         bind_p (Some (free ns' node)) (\<lambda>ns''.
         bind_p (Some (free (blocks c1) p)) (\<lambda>bl'.
           Some (Inr (c1\<lparr>lru_list := l', nodes := ns'', blocks := bl'\<rparr>, 0))))))) x = Some (Inr (c', r))"
    by (rule bind_p_InrE)
  obtain m' v where x: "x = (m', v)" by (cases x)
  show ?thesis
  proof (cases "v = NULL")
    case True
    with r2 x have "c' = c\<lparr>map_c := Some m'\<rparr>" "r = - 1" by simp_all
    with p hd x True show ?thesis by simp
  next
    case False
    let ?c1 = "c\<lparr>map_c := Some m', size_c := size_c c - size_b blk\<rparr>"
    from r2 x False have "bind_p (list_find (lru_list ?c1) (nodes ?c1) p) (\<lambda>node.
         bind_p (Some (list_delete (lru_list ?c1) (nodes ?c1) node)) (\<lambda>(l', ns').
         bind_p (Some (free ns' node)) (\<lambda>ns''.
         bind_p (Some (free (blocks ?c1) p)) (\<lambda>bl'.
           Some (Inr (?c1\<lparr>lru_list := l', nodes := ns'', blocks := bl'\<rparr>, 0)))))) = Some (Inr (c', r))"
      by (simp add: Let_def)
    then obtain node where r3: "bind_p (Some (list_delete (lru_list ?c1) (nodes ?c1) node)) (\<lambda>(l', ns').
         bind_p (Some (free ns' node)) (\<lambda>ns''.
         bind_p (Some (free (blocks ?c1) p)) (\<lambda>bl'.
           Some (Inr (?c1\<lparr>lru_list := l', nodes := ns'', blocks := bl'\<rparr>, 0))))) = Some (Inr (c', r))"
      by (rule bind_p_InrE)
    from r3 obtain y where r4: "(\<lambda>(l', ns').
         bind_p (Some (free ns' node)) (\<lambda>ns''.
         bind_p (Some (free (blocks ?c1) p)) (\<lambda>bl'.
           Some (Inr (?c1\<lparr>lru_list := l', nodes := ns'', blocks := bl'\<rparr>, 0))))) y = Some (Inr (c', r))"
      by (rule bind_p_InrE)
    obtain l' ns' where y: "y = (l', ns')" by (cases y)
    from r4 y have r5: "bind_p (Some (free ns' node)) (\<lambda>ns''.
         bind_p (Some (free (blocks ?c1) p)) (\<lambda>bl'.
           Some (Inr (?c1\<lparr>lru_list := l', nodes := ns'', blocks := bl'\<rparr>, 0)))) = Some (Inr (c', r))"
      by simp
    from r5 obtain ns'' where r6: "bind_p (Some (free (blocks ?c1) p)) (\<lambda>bl'.
           Some (Inr (?c1\<lparr>lru_list := l', nodes := ns'', blocks := bl'\<rparr>, 0))) = Some (Inr (c', r))"
      by (rule bind_p_InrE)
    from r6 obtain bl' where fb: "Some (free (blocks ?c1) p) = Some (Inr bl')"
      and r7: "Some (Inr (?c1\<lparr>lru_list := l', nodes := ns'', blocks := bl'\<rparr>, 0)) = Some (Inr (c', r))"
      by (rule bind_p_InrE) blast
    from fb have bl: "bl' = (blocks c)(p := None)" using p by (simp add: free_def)
    from r7 have "c' = ?c1\<lparr>lru_list := l', nodes := ns'', blocks := bl'\<rparr>" "r = 0"
      by simp_all
    with p hd x False bl show ?thesis by simp
  qed
qed

lemma cache_delete_pres:
  assumes I: "evict_inv k b0 blk0 N B c" and kk: "take (keylen_b blk0) (key_b blk0) = k"
    and run: "cache_delete calloc_ok c p = Some (Inr (c', r))"
  shows "evict_inv k b0 blk0 N B c'"
proof -
  from I obtain m where m: "map_c c = Some m" "hm_inv m" "k \<notin> keys_of (bins m)" "length (bins m) \<le> N"
    and b0: "blocks c b0 = Some blk0" and B: "brk c = B"
    by (auto simp: evict_inv_def)
  from cache_delete_cases [OF m(1) run] obtain blk m' v where
    p: "p \<noteq> NULL" "blocks c p = Some blk"
    and hd: "hashmap_delete calloc_ok m (take (keylen_b blk) (key_b blk)) = Some (Inr (m', v))"
    and c': "map_c c' = Some m'" "brk c' = brk c"
    and alt: "(v = NULL \<and> r = - 1 \<and> blocks c' = blocks c)
        \<or> (v \<noteq> NULL \<and> r = 0 \<and> blocks c' = (blocks c)(p := None))"
    by blast
  from hashmap_delete_correct [OF m(2) hd]
  have inv': "hm_inv m'" and sub: "keys_of (bins m') \<subseteq> keys_of (bins m)"
    and len: "length (bins m') \<le> length (bins m)" by simp_all
  have "blocks c' b0 = Some blk0"
  proof (cases "v = NULL")
    case True
    with alt b0 show ?thesis by simp
  next
    case False
    have "p \<noteq> b0"
    proof
      assume "p = b0"
      with p b0 kk have "take (keylen_b blk) (key_b blk) = k" by simp
      with hd hashmap_delete_absent [OF m(2,3), of calloc_ok] False show False by simp
    qed
    with alt False b0 show ?thesis by simp
  qed
  with c' inv' sub len m B show ?thesis unfolding evict_inv_def by auto
qed

lemma evict_loop_pres_aux:
  assumes "evict_loop calloc_ok c n = Some y"
  shows "evict_inv k b0 blk0 N B c \<longrightarrow> take (keylen_b blk0) (key_b blk0) = k \<longrightarrow>
     (\<forall>c3. y = Inr c3 \<longrightarrow> evict_inv k b0 blk0 N B c3)"
proof (rule evict_loop.raw_induct [where P = "\<lambda>calloc_ok c n y.
    evict_inv k b0 blk0 N B c \<longrightarrow> take (keylen_b blk0) (key_b blk0) = k \<longrightarrow>
     (\<forall>c3. y = Inr c3 \<longrightarrow> evict_inv k b0 blk0 N B c3)", OF _ assms], goal_cases)
  case (1 f calloc_ok c n y)
  show ?case
  proof (intro impI allI)
    fix c3
    assume I: "evict_inv k b0 blk0 N B c" and kk: "take (keylen_b blk0) (key_b blk0) = k"
      and y: "y = Inr c3"
    show "evict_inv k b0 blk0 N B c3"
    proof (cases "n \<noteq> NULL \<and> size_c c > max_size c")
      case False
      with 1(2) y have "c3 = c" by auto
      with I show ?thesis by simp
    next
      case True
      with 1(2) y obtain nd :: node_t and pd :: node_t and c' r where
        cd: "cache_delete calloc_ok c (value_n pd) = Some (Inr (c', r))"
        and rec: "f calloc_ok c' (prev_n nd) = Some (Inr c3)"
        by (auto split: sum.splits option.splits prod.splits)
      from 1(1) [OF rec] cache_delete_pres [OF I kk cd] kk show ?thesis by simp
    qed
  qed
qed

lemma evict_loop_pres:
  assumes "evict_loop calloc_ok c n = Some (Inr c3)" and "evict_inv k b0 blk0 N B c"
    and "take (keylen_b blk0) (key_b blk0) = k"
  shows "evict_inv k b0 blk0 N B c3"
  using evict_loop_pres_aux [OF assms(1)] assms(2,3) by blast

text \<open>
  Insert, then find.  On a cache whose hash index is well-formed and does not hold the
  key, with a heap that is not exhausted and allocations of the table that succeed, an
  insert that returns 0 is followed by a \<open>cache_find\<close> that returns the new block, which
  holds copies of the key and of the value; the index is again well-formed.
\<close>

lemma cache_insert_then_find:
  assumes m: "map_c c = Some m" "hm_inv m" and k: "k \<noteq> []" and ab: "k \<notin> keys_of (bins m)"
    and brk0: "brk c \<noteq> NULL" and cap: "length (bins m) * 2 \<le> HASHMAP_MAX"
    and al: "\<forall>n\<le>HASHMAP_MAX. calloc_ok n"
    and run: "cache_insert calloc_ok c k v = Some (Inr (c', 0))"
  shows "\<exists>b m'. cache_find c' k = Some (Inr (c', brk c)) \<and> blocks c' (brk c) = Some b
     \<and> value_b b = v \<and> key_b b = k \<and> keylen_b b = length k
     \<and> map_c c' = Some m' \<and> hm_inv m'"
proof -
  let ?blk = "\<lparr>key_b = k, value_b = v, size_b = length v, keylen_b = length k\<rparr>"
  let ?c2 = "c\<lparr>blocks := (blocks c)(brk c \<mapsto> ?blk), brk := brk c + 1, size_c := size_c c + length v\<rparr>"
  have hf: "hashmap_find m k = Inr NULL" using hashmap_find_absent [OF m(2) ab k] .
  have unf: "cache_insert calloc_ok c k v =
     (if length v > max_size c then Some (Inr (c, - 1))
      else
         bind_p (evict_loop calloc_ok ?c2 (head (lru_list c))) (\<lambda>c3.
         bind_p (Some (the_map c3)) (\<lambda>m3.
         bind_p (hashmap_insert calloc_ok m3 k (brk c)) (\<lambda>(m4, r).
         bind_p (Some (list_insert (lru_list c3) (nodes c3) (brk c3) (brk c))) (\<lambda>(l', ns', brk').
           Some (Inr (c3\<lparr>map_c := Some m4, lru_list := l', nodes := ns', brk := brk'\<rparr>, 0)))))))"
    using m(1) hf brk0 by (simp add: cache_insert_def the_map_def get_block_def Let_def bind_p_simps)
  have fits: "\<not> length v > max_size c"
  proof
    assume "length v > max_size c"
    with run unf show False by simp
  qed
  from run have r1: "bind_p (evict_loop calloc_ok ?c2 (head (lru_list c))) (\<lambda>c3.
         bind_p (Some (the_map c3)) (\<lambda>m3.
         bind_p (hashmap_insert calloc_ok m3 k (brk c)) (\<lambda>(m4, r).
         bind_p (Some (list_insert (lru_list c3) (nodes c3) (brk c3) (brk c))) (\<lambda>(l', ns', brk').
           Some (Inr (c3\<lparr>map_c := Some m4, lru_list := l', nodes := ns', brk := brk'\<rparr>, 0))))))
       = Some (Inr (c', 0 :: int))"
    unfolding unf using fits by (simp only: if_False)
  then obtain c3 where ev: "evict_loop calloc_ok ?c2 (head (lru_list c)) = Some (Inr c3)"
    and r2: "bind_p (Some (the_map c3)) (\<lambda>m3.
         bind_p (hashmap_insert calloc_ok m3 k (brk c)) (\<lambda>(m4, r).
         bind_p (Some (list_insert (lru_list c3) (nodes c3) (brk c3) (brk c))) (\<lambda>(l', ns', brk').
           Some (Inr (c3\<lparr>map_c := Some m4, lru_list := l', nodes := ns', brk := brk'\<rparr>, 0)))))
       = Some (Inr (c', 0 :: int))"
    by (rule bind_p_InrE) (rule that)
  have "evict_inv k (brk c) ?blk (length (bins m)) (brk c + 1) ?c2"
    using m ab by (simp add: evict_inv_def)
  from evict_loop_pres [OF ev this] obtain m3 where
    m3: "map_c c3 = Some m3" "hm_inv m3" "k \<notin> keys_of (bins m3)" "length (bins m3) \<le> length (bins m)"
    and b3: "blocks c3 (brk c) = Some ?blk" and brk3: "brk c3 = brk c + 1"
    by (auto simp: evict_inv_def)
  have cap3: "length (bins m3) * 2 \<le> HASHMAP_MAX" using cap m3(4) by simp
  from hashmap_insert_absent [OF m3(2,3) cap3 al, of "brk c"]
  obtain m4 where m4: "hashmap_insert calloc_ok m3 k (brk c) = Some (Inr (m4, brk c))" "hm_inv m4"
    "kvs (bins m4) = insert (k, brk c) (kvs (bins m3))"
    by blast
  from r2 m3(1) m4(1) have r3: "bind_p (Some (list_insert (lru_list c3) (nodes c3) (brk c3) (brk c)))
       (\<lambda>(l', ns', brk'). Some (Inr (c3\<lparr>map_c := Some m4, lru_list := l', nodes := ns', brk := brk'\<rparr>, 0)))
       = Some (Inr (c', 0 :: int))"
    by (simp add: the_map_def bind_p_simps)
  then obtain x where li: "Some (list_insert (lru_list c3) (nodes c3) (brk c3) (brk c)) = Some (Inr x)"
    and r4: "(\<lambda>(l', ns', brk'). Some (Inr (c3\<lparr>map_c := Some m4, lru_list := l', nodes := ns', brk := brk'\<rparr>, 0))) x
       = (Some (Inr (c', 0 :: int)) :: (fault + cache_t \<times> int) option)"
    by (rule bind_p_InrE) (rule that)
  obtain l' ns' brk' where x: "x = (l', ns', brk')" by (cases x)
  from r4 x have c': "c' = c3\<lparr>map_c := Some m4, lru_list := l', nodes := ns', brk := brk'\<rparr>" by simp
  from li x have "list_insert (lru_list c3) (nodes c3) (brk c3) (brk c) = Inr (l', ns', brk')" by simp
  from list_insert_has_val [OF this]
  have hd: "head l' = brk c3" and hv: "has_val ns' (brk c3) (brk c)" by simp_all
  have hn: "head l' \<noteq> NULL" using hd brk3 by simp
  have hv': "has_val ns' (head l') (brk c)" using hd hv by simp
  have lf: "list_find l' ns' (brk c) = Some (Inr (head l'))"
    using hn hv' by (rule list_find_head)
  have mv: "list_move_to_head l' ns' (head l') = Inr (l', ns')" by (simp add: list_move_to_head_def)
  have fnd: "hashmap_find m4 k = Inr (brk c)"
    by (rule hashmap_find_present [OF m4(2)]) (simp add: m4(3))
  have "cache_find c' k = Some (Inr (c', brk c))"
    using fnd brk0 lf mv by (simp add: cache_find_def c' the_map_def bind_p_simps)
  moreover have "blocks c' (brk c) = Some ?blk" using b3 by (simp add: c')
  moreover have "map_c c' = Some m4" by (simp add: c')
  ultimately show ?thesis using m4(2) by simp
qed

text \<open>
  Delete, then find.  After \<open>cache_delete\<close> of a block has returned 0, \<open>cache_find\<close> of the
  block's key returns \<open>NULL\<close>.
\<close>

lemma cache_delete_then_find:
  assumes m: "map_c c = Some m" "hm_inv m" and k: "k \<noteq> []"
    and blk: "blocks c p = Some blk" "take (keylen_b blk) (key_b blk) = k"
    and run: "cache_delete calloc_ok c p = Some (Inr (c', 0))"
  shows "cache_find c' k = Some (Inr (c', NULL)) \<and> (\<exists>m'. map_c c' = Some m' \<and> hm_inv m')"
proof -
  from cache_delete_cases [OF m(1) run] blk obtain m' v where
    hd: "hashmap_delete calloc_ok m k = Some (Inr (m', v))"
    and c': "map_c c' = Some m'" and v: "v \<noteq> NULL"
    by auto
  from hashmap_delete_correct [OF m(2) hd] v have inv': "hm_inv m'" "k \<notin> keys_of (bins m')" by simp_all
  from hashmap_find_absent [OF this k] c' inv'(1) show ?thesis
    by (simp add: cache_find_def the_map_def bind_p_simps)
qed

text \<open>
  The two lemmas above at a run of the code: the insert of "b" into the cache holding "a",
  and the deletion of the block of "a" from the cache holding "a" and "b".
\<close>

lemma hm_inv_map_a: "hm_inv map_a"
  by (simp add: hm_inv_def table_inv_def rh_layout_def distinct_keys_def map_a_def bin_wf_def
      occupied_def ideal_def pos_def get_hash_def occ_count_def)

lemma hm_inv_map_ab: "hm_inv map_ab"
proof -
  have ab: "[98] \<notin> keys_of (bins map_a)" by (simp add: keys_of_iff map_a_def)
  have cap: "length (bins map_a) * 2 \<le> HASHMAP_MAX" by (simp add: map_a_def HASHMAP_MAX_def)
  have al: "\<forall>n\<le>HASHMAP_MAX. calloc_always n" by (simp add: calloc_always_def)
  from hashmap_insert_absent [OF hm_inv_map_a ab cap al, of 3] map_abc_reached(3)
  show ?thesis by auto
qed

lemma cache_insert_then_find_example:
  "cache_insert calloc_always cache_a [98] (replicate 8 1) = Some (Inr (cache_ab, 0))
   \<and> cache_find cache_ab [98] = Some (Inr (cache_ab, 3))
   \<and> map_option value_b (blocks cache_ab 3) = Some (replicate 8 1)"
proof -
  have m: "map_c cache_a = Some map_a" by (simp add: cache_a_def)
  have ab: "[98] \<notin> keys_of (bins map_a)" by (simp add: keys_of_iff map_a_def)
  have b: "brk cache_a \<noteq> NULL" "brk cache_a = 3" by (simp_all add: cache_a_def)
  have cap: "length (bins map_a) * 2 \<le> HASHMAP_MAX" by (simp add: map_a_def HASHMAP_MAX_def)
  have al: "\<forall>n\<le>HASHMAP_MAX. calloc_always n" by (simp add: calloc_always_def)
  from cache_insert_then_find [OF m hm_inv_map_a _ ab b(1) cap al cache_ab_reached] b(2)
  show ?thesis using cache_ab_reached by auto
qed

lemma cache_delete_then_find_example:
  "\<exists>c'. cache_delete calloc_always cache_ab 1 = Some (Inr (c', 0))
     \<and> cache_find c' [97] = Some (Inr (c', NULL))"
proof -
  have m: "map_c cache_ab = Some map_ab" by (simp add: cache_ab_def)
  have b: "blocks cache_ab 1 = Some \<lparr>key_b = [97], value_b = replicate 8 0, size_b = 8, keylen_b = 1\<rparr>"
    by (simp add: cache_ab_def)
  have "\<exists>c'. cache_delete calloc_always cache_ab 1 = Some (Inr (c', 0))"
    by (simp add: eval_defs2 cache_ab_def map_ab_def)
  then obtain c' where run: "cache_delete calloc_always cache_ab 1 = Some (Inr (c', 0))" by blast
  from cache_delete_then_find [OF m hm_inv_map_ab _ b _ run, of "[97]"]
  have "cache_find c' [97] = Some (Inr (c', NULL))" by simp
  with run show ?thesis by blast
qed

section \<open>Claims about the round trip\<close>

text \<open>
  C2.  Round trip: after \<open>cache_insert(k, v)\<close> has succeeded and as long as no operation
  evicts \<open>k\<close>, \<open>cache_find(k)\<close> returns a block holding \<open>v\<close>; after the entry is deleted it
  returns \<open>NULL\<close>.  Both hold when the find follows at once (\<open>cache_insert_then_find\<close>,
  \<open>cache_delete_then_find\<close>), but not across other operations.  After \<open>cache_init(30)\<close> and
  the inserts of "a", "b", "c" (10 bytes each), \<open>cache_find("a")\<close> returns the ten bytes stored
  under "a".  The block of "c" (address 5) is at the head of the list; \<open>cache_delete\<close> of it
  returns 0, and "c" is then not found, as claimed.  But \<open>list_delete\<close> has left \<open>head\<close>
  pointing to the freed node of "c": "a" was not evicted and is still in the hash index, yet
  \<open>cache_find("a")\<close> reads the freed node instead of returning the block.
\<close>

theorem round_trip_dangling_head:
  "map_option (map_sum id lru_keys) run_abc = Some (Inr [[99], [98], [97]])
   \<and> map_option (map_sum id (\<lambda>c. map_option key_b (blocks c 5))) run_abc = Some (Inr (Some [99]))
   \<and> map_option (map_sum id (\<lambda>(c, p). map_option value_b (blocks c p)))
        (bind_p run_abc (\<lambda>c. cache_find c [97])) = Some (Inr (Some (replicate 10 0)))
   \<and> map_option (map_sum id snd) (bind_p run_abc (\<lambda>c. cache_delete calloc_always c 5)) = Some (Inr 0)
   \<and> map_option (map_sum id snd)
        (bind_p (then_delete calloc_always 5 run_abc) (\<lambda>c. cache_find c [99])) = Some (Inr NULL)
   \<and> map_option (map_sum id (\<lambda>c. map_option (\<lambda>m. hashmap_find m [97]) (map_c c)))
        (then_delete calloc_always 5 run_abc) = Some (Inr (Some (Inr 1)))
   \<and> then_find [97] (then_delete calloc_always 5 run_abc) = Some (Inl DanglingPointer)"
proof (intro conjI)
  show "map_option (map_sum id lru_keys) run_abc = Some (Inr [[99], [98], [97]])"
    by (simp add: run_abc_def eval_defs3)
  show "map_option (map_sum id (\<lambda>c. map_option key_b (blocks c 5))) run_abc = Some (Inr (Some [99]))"
    by (simp add: run_abc_def eval_defs3)
  show "map_option (map_sum id (\<lambda>(c, p). map_option value_b (blocks c p)))
        (bind_p run_abc (\<lambda>c. cache_find c [97])) = Some (Inr (Some (replicate 10 0)))"
    by (simp add: run_abc_def eval_defs3)
  show "map_option (map_sum id snd) (bind_p run_abc (\<lambda>c. cache_delete calloc_always c 5)) = Some (Inr 0)"
    by (simp add: run_abc_def eval_defs3)
  show "map_option (map_sum id snd)
        (bind_p (then_delete calloc_always 5 run_abc) (\<lambda>c. cache_find c [99])) = Some (Inr NULL)"
    by (simp add: run_abc_def eval_defs3)
  show "map_option (map_sum id (\<lambda>c. map_option (\<lambda>m. hashmap_find m [97]) (map_c c)))
        (then_delete calloc_always 5 run_abc) = Some (Inr (Some (Inr 1)))"
    by (simp add: run_abc_def eval_defs3)
  show "then_find [97] (then_delete calloc_always 5 run_abc) = Some (Inl DanglingPointer)"
    by (simp add: run_abc_def eval_defs3)
qed

end
